theory Spec2Isabelle
  imports Complex_Main "HOL-Library.Word"
begin

unbundle bit_operations_syntax

section \<open>Values of the JavaScript runtime\<close>

type_synonym byte = "8 word"

text \<open>
  A JavaScript number is an IEEE-754 double. Every double is a rational, a signed zero,
  an infinity or NaN; \<open>Finite 0\<close> is the positive zero.
\<close>

datatype number = Finite rat | NegZero | PosInf | NegInf | NaN

text \<open>Unary minus and multiplication of doubles, where the exact result is a double
  (the only use below is on operands whose exact product has at most 11 significant bits).\<close>

fun negate :: "number \<Rightarrow> number" where
  "negate (Finite q) = (if q = 0 then NegZero else Finite (- q))"
| "negate NegZero = Finite 0"
| "negate PosInf = NegInf"
| "negate NegInf = PosInf"
| "negate NaN = NaN"

definition is_negative :: "number \<Rightarrow> bool" where
  "is_negative x = (case x of Finite q \<Rightarrow> q < 0 | NegZero \<Rightarrow> True | NegInf \<Rightarrow> True | _ \<Rightarrow> False)"

definition is_zero :: "number \<Rightarrow> bool" where
  "is_zero x = (case x of Finite q \<Rightarrow> q = 0 | NegZero \<Rightarrow> True | _ \<Rightarrow> False)"

definition is_inf :: "number \<Rightarrow> bool" where
  "is_inf x = (x = PosInf \<or> x = NegInf)"

definition times :: "number \<Rightarrow> number \<Rightarrow> number" where
  "times x y =
     (if x = NaN \<or> y = NaN then NaN
      else if (is_inf x \<and> is_zero y) \<or> (is_zero x \<and> is_inf y) then NaN
      else if is_inf x \<or> is_inf y then
        (if is_negative x = is_negative y then PosInf else NegInf)
      else if is_zero x \<or> is_zero y then
        (if is_negative x = is_negative y then Finite 0 else NegZero)
      else (case (x, y) of (Finite a, Finite b) \<Rightarrow> Finite (a * b) | _ \<Rightarrow> NaN))"

text \<open>
  The nearest double of an integer (round to nearest, ties to even, 53 significant bits):
  what \<open>Number(s)\<close> gives for the decimal string \<open>s\<close> of an integer below \<open>2^1024\<close>.
\<close>

fun bitlen :: "nat \<Rightarrow> nat" where
  "bitlen n = (if n = 0 then 0 else Suc (bitlen (n div 2)))"

declare bitlen.simps [simp del]

definition round_double :: "int \<Rightarrow> int" where
  "round_double x =
     (let a = nat \<bar>x\<bar> in
      if a < 2 ^ 53 then x
      else
        let k = bitlen a - 53;
            q = a div 2 ^ k;
            r = a mod 2 ^ k;
            q' = (if 2 ^ k < 2 * r \<or> (2 * r = 2 ^ k \<and> odd q) then q + 1 else q)
        in sgn x * int (q' * 2 ^ k))"

definition number_of_int :: "int \<Rightarrow> number" where
  "number_of_int x =
     (let y = round_double x in
      if 2 ^ 1024 \<le> y then PosInf
      else if y \<le> - (2 ^ 1024) then NegInf
      else Finite (of_int y))"

definition MAX_SAFE_INTEGER :: int where
  "MAX_SAFE_INTEGER = 2 ^ 53 - 1"

definition MIN_SAFE_INTEGER :: int where
  "MIN_SAFE_INTEGER = - (2 ^ 53 - 1)"

text \<open>
  What \<open>_decodeValue\<close> returns: a native number (always an integer here), a BigNumber
  (the arbitrary-precision integer of bignumber.js), or \<open>undefined\<close> (a byte read
  past the end of the buffer).
\<close>

datatype jsnum = Num int | Big int | Undef

text \<open>A BigNumber is an arbitrary-precision integer here, or the library's NaN.\<close>

datatype BigNumber = BN int | BN_NaN

section \<open>Errors\<close>

text \<open>
  One constructor for each \<open>throw\<close> of the source, for the \<open>RangeError\<close> of the
  runtime's \<open>readUInt16BE\<close>/\<open>readUInt32BE\<close>/\<open>readFloatBE\<close>/\<open>readDoubleBE\<close> on an
  offset outside the buffer, for the \<open>TypeError\<close> of calling a property that is not
  a function, and for the error bignumber.js raises on a string that is not a numeral.
  \<open>OffsetNotNumeric\<close> and \<open>OutsideFragment\<close> are not errors of the source: they end a run
  at the point where the offset stops being a number (a BigNumber or \<open>undefined\<close> was
  added to it), respectively where the run leaves the fragment of JavaScript objects
  modelled here (a text with a byte that is not ASCII; the runtime's string conversion
  of a map key that is not a text, an integer, a boolean or null; a map whose prototype an
  entry replaced). A run that ends with one of these two says nothing about the
  source beyond that point.
\<close>

datatype error =
    NeedMoreData
  | NotString | NotBytes | NotNumber | NotInteger | NotFloat
  | InvalidBigIntTag | BigIntNotBinary
  | DecimalTag | DecimalArraySize
  | NotArray | NotMap
  | UnexpectedBreak | UnhandledType | NotCborBytes
  | DuplicateKey | InvalidSize | NotATag
  | RangeError | TypeError | BigNumberError
  | OffsetNotNumeric | OutsideFragment

section \<open>CborTypes\<close>

text \<open>
  Modelled from the spec: the module CborTypes (the table of type codes and tag numbers
  and the decomposition of a type byte) is not among the sources. The codes are those of
  the wire format the spec describes: the major type is the top 3 bits of the type byte,
  the minor type its bottom 5 bits. A type byte is what \<open>peek\<close> returned: a byte, or
  \<open>undefined\<close> (\<open>None\<close>), which the bit operations of JavaScript read as 0.
\<close>

definition TYPE_POSINT :: byte where "TYPE_POSINT = 0x00"
definition TYPE_NEGINT :: byte where "TYPE_NEGINT = 0x20"
definition TYPE_BYTES :: byte where "TYPE_BYTES = 0x40"
definition TYPE_UTF :: byte where "TYPE_UTF = 0x60"
definition TYPE_ARRAY :: byte where "TYPE_ARRAY = 0x80"
definition TYPE_MAP :: byte where "TYPE_MAP = 0xA0"
definition TYPE_TAG :: byte where "TYPE_TAG = 0xC0"
definition TYPE_SIMPLE :: byte where "TYPE_SIMPLE = 0xE0"

definition TYPE_FALSE :: byte where "TYPE_FALSE = 0xF4"
definition TYPE_TRUE :: byte where "TYPE_TRUE = 0xF5"
definition TYPE_NULL :: byte where "TYPE_NULL = 0xF6"
definition TYPE_UNDEFINED :: byte where "TYPE_UNDEFINED = 0xF7"
definition TYPE_FLOAT_16 :: byte where "TYPE_FLOAT_16 = 0xF9"
definition TYPE_FLOAT_32 :: byte where "TYPE_FLOAT_32 = 0xFA"
definition TYPE_FLOAT_64 :: byte where "TYPE_FLOAT_64 = 0xFB"
definition TYPE_BREAK :: byte where "TYPE_BREAK = 0xFF"

definition SIZE_8 :: byte where "SIZE_8 = 24"
definition SIZE_16 :: byte where "SIZE_16 = 25"
definition SIZE_32 :: byte where "SIZE_32 = 26"
definition SIZE_64 :: byte where "SIZE_64 = 27"
definition SIZE_STREAM :: byte where "SIZE_STREAM = 31"

definition TAG_POSBIGINT :: int where "TAG_POSBIGINT = 2"
definition TAG_NEGBIGINT :: int where "TAG_NEGBIGINT = 3"
definition TAG_DECIMAL :: int where "TAG_DECIMAL = 4"

lemmas cbor_codes =
  TYPE_POSINT_def TYPE_NEGINT_def TYPE_BYTES_def TYPE_UTF_def TYPE_ARRAY_def TYPE_MAP_def
  TYPE_TAG_def TYPE_SIMPLE_def TYPE_FALSE_def TYPE_TRUE_def TYPE_NULL_def
  TYPE_UNDEFINED_def TYPE_FLOAT_16_def TYPE_FLOAT_32_def TYPE_FLOAT_64_def TYPE_BREAK_def
  SIZE_8_def SIZE_16_def SIZE_32_def SIZE_64_def SIZE_STREAM_def
  TAG_POSBIGINT_def TAG_NEGBIGINT_def TAG_DECIMAL_def

definition toInt32 :: "byte option \<Rightarrow> byte" where
  "toInt32 t = (case t of None \<Rightarrow> 0 | Some b \<Rightarrow> b)"

definition majorType :: "byte option \<Rightarrow> byte" where
  "majorType t = toInt32 t AND 0xE0"

definition minorType :: "byte option \<Rightarrow> byte" where
  "minorType t = toInt32 t AND 0x1F"

definition isMajorType :: "byte option \<Rightarrow> byte \<Rightarrow> bool" where
  "isMajorType t mt = (majorType t = mt)"

section \<open>The decoder object\<close>

text \<open>
  The fields of a \<open>CborDecoder\<close>: the buffer, the read offset \<open>start\<close>, the exclusive
  bound \<open>_limit\<close> (\<open>None\<close> is \<open>undefined\<close>), the content of \<open>_byteStreamBuffer\<close> and the
  reused sub-decoder. Offsets are natural numbers: a Buffer of Node.js is shorter than
  \<open>2^53\<close> bytes, so the doubles that hold offsets are exact.
\<close>

datatype decoder =
  Decoder (buffer: "byte list") (start: nat) (limit: "nat option")
    (byteStreamBuffer: "byte list") (subDecoder: "decoder option")

definition set_start :: "nat \<Rightarrow> decoder \<Rightarrow> decoder" where
  "set_start n s = Decoder (buffer s) n (limit s) (byteStreamBuffer s) (subDecoder s)"

definition set_byteStreamBuffer :: "byte list \<Rightarrow> decoder \<Rightarrow> decoder" where
  "set_byteStreamBuffer a s = Decoder (buffer s) (start s) (limit s) a (subDecoder s)"

definition set_subDecoder :: "decoder option \<Rightarrow> decoder \<Rightarrow> decoder" where
  "set_subDecoder d s = Decoder (buffer s) (start s) (limit s) (byteStreamBuffer s) d"

text \<open>The constructor: \<open>start || 0\<close>, \<open>end || buffer.length\<close>, a fresh accumulator.\<close>

definition CborDecoder :: "byte list \<Rightarrow> nat option \<Rightarrow> nat option \<Rightarrow> decoder" where
  "CborDecoder buf st en =
     Decoder buf (case st of None \<Rightarrow> 0 | Some n \<Rightarrow> n)
       (Some (case en of None \<Rightarrow> length buf | Some n \<Rightarrow> if n = 0 then length buf else n))
       [] None"

text \<open>
  A method either returns a value or throws, and leaves the decoder in a new state either
  way: the mutations made before a \<open>throw\<close> stay.
\<close>

type_synonym 'a res = "(error + 'a) \<times> decoder"

definition ret :: "'a \<Rightarrow> decoder \<Rightarrow> 'a res" where
  "ret x s = (Inr x, s)"

definition throw :: "error \<Rightarrow> decoder \<Rightarrow> 'a res" where
  "throw e s = (Inl e, s)"

definition bind :: "(decoder \<Rightarrow> 'a res) \<Rightarrow> ('a \<Rightarrow> decoder \<Rightarrow> 'b res) \<Rightarrow> decoder \<Rightarrow> 'b res" where
  "bind m f s = (case m s of (Inl e, s') \<Rightarrow> (Inl e, s') | (Inr x, s') \<Rightarrow> f x s')"

definition lift :: "error + 'a \<Rightarrow> decoder \<Rightarrow> 'a res" where
  "lift r s = (r, s)"

subsection \<open>Reading the buffer\<close>

text \<open>\<open>buf[i]\<close> is \<open>undefined\<close> outside the buffer; the multi-byte readers of the
  runtime throw a RangeError there.\<close>

definition buf_at :: "byte list \<Rightarrow> nat \<Rightarrow> byte option" where
  "buf_at b i = (if i < length b then Some (b ! i) else None)"

definition be_nat :: "byte list \<Rightarrow> nat" where
  "be_nat bs = foldl (\<lambda>a b. a * 256 + unat b) 0 bs"

definition readUIntBE :: "nat \<Rightarrow> byte list \<Rightarrow> nat \<Rightarrow> error + nat" where
  "readUIntBE n b off =
     (if off + n \<le> length b then Inr (be_nat (take n (drop off b))) else Inl RangeError)"

definition readUInt16BE :: "byte list \<Rightarrow> nat \<Rightarrow> error + nat" where
  "readUInt16BE = readUIntBE 2"

definition readUInt32BE :: "byte list \<Rightarrow> nat \<Rightarrow> error + nat" where
  "readUInt32BE = readUIntBE 4"

subsection \<open>The cursor\<close>

text \<open>
  \<open>this._limit - this.start < n\<close>: with \<open>_limit\<close> undefined the difference is NaN and
  the comparison false; a BigNumber \<open>n\<close> is compared by its nearest double; with \<open>n\<close>
  undefined the comparison is false.
\<close>

definition js_less :: "int \<Rightarrow> jsnum \<Rightarrow> bool" where
  "js_less x n = (case n of Num m \<Rightarrow> x < m | Big b \<Rightarrow> x < round_double b | Undef \<Rightarrow> False)"

text \<open>
  \<open>x == k\<close> and \<open>x === k\<close> for what \<open>_decodeValue\<close> returned and an integer literal \<open>k\<close>:
  the loose comparison converts a BigNumber to a number, the strict one is false on it.
\<close>

definition loose_eq :: "jsnum \<Rightarrow> int \<Rightarrow> bool" where
  "loose_eq x k = (case x of Num n \<Rightarrow> n = k | Big b \<Rightarrow> round_double b = k | Undef \<Rightarrow> False)"

definition strict_eq :: "jsnum \<Rightarrow> int \<Rightarrow> bool" where
  "strict_eq x k = (x = Num k)"

definition ensureAvailable :: "jsnum \<Rightarrow> decoder \<Rightarrow> unit res" where
  "ensureAvailable n s =
     (case limit s of
        None \<Rightarrow> ret () s
      | Some l \<Rightarrow> if js_less (int l - int (start s)) n then throw NeedMoreData s else ret () s)"

definition peek :: "decoder \<Rightarrow> byte option res" where
  "peek = bind (ensureAvailable (Num 1)) (\<lambda>_ s. ret (buf_at (buffer s) (start s)) s)"

definition consume :: "nat \<Rightarrow> decoder \<Rightarrow> unit res" where
  "consume n s = ret () (set_start (start s + n) s)"

subsection \<open>The primitive value reader\<close>

definition finish :: "jsnum \<Rightarrow> nat \<Rightarrow> decoder \<Rightarrow> jsnum res" where
  "finish result excess = bind (consume (1 + excess)) (\<lambda>_. ret result)"

definition decodeValue :: "byte option \<Rightarrow> decoder \<Rightarrow> jsnum res" where
  "decodeValue v =
     (let size = minorType v in
      if size < SIZE_8 then finish (Num (uint size)) 0
      else if size = SIZE_8 then
        bind (ensureAvailable (Num 2)) (\<lambda>_ s.
          finish (case buf_at (buffer s) (start s + 1) of
                    None \<Rightarrow> Undef | Some b \<Rightarrow> Num (uint b)) 1 s)
      else if size = SIZE_16 then
        bind (ensureAvailable (Num 3)) (\<lambda>_.
        bind (\<lambda>s. lift (readUInt16BE (buffer s) (start s + 1)) s) (\<lambda>r.
          finish (Num (int r)) 2))
      else if size = SIZE_32 then
        bind (ensureAvailable (Num 5)) (\<lambda>_.
        bind (\<lambda>s. lift (readUInt32BE (buffer s) (start s + 1)) s) (\<lambda>r.
          finish (Num (int r)) 4))
      else if size = SIZE_64 then
        bind (ensureAvailable (Num 9)) (\<lambda>_.
        bind (\<lambda>s. lift (readUInt32BE (buffer s) (start s + 1)) s) (\<lambda>f.
        bind (\<lambda>s. lift (readUInt32BE (buffer s) (start s + 5)) s) (\<lambda>g.
          let result = int f * 2 ^ 32 + int g in
          finish (if MIN_SAFE_INTEGER \<le> round_double result
                     \<and> round_double result \<le> MAX_SAFE_INTEGER
                  then Num (round_double result) else Big result) 8)))
      else if size = SIZE_STREAM then finish (Num (- 1)) 0
      else throw InvalidSize)"


subsection \<open>Decoded values\<close>

text \<open>
  The values the decoder returns: \<open>null\<close>, \<open>undefined\<close>, booleans, numbers, BigNumbers,
  Buffers, strings (only strings of ASCII characters occur, one \<open>char\<close> each), arrays,
  plain objects and BigDecimals (the two arguments its constructor is called with; the
  class BigDecimal is not among the sources). A plain object is given by its own
  properties, as a list of names and values without repeated names. The list is in the
  order in which the properties were created, which is not the order in which the runtime
  enumerates them (names that are array indices come first there, in ascending order):
  two lists with the same entries stand for the same object.
\<close>

datatype jsvalue =
    VNull | VUndefined | VBool bool | VNumber number | VBig BigNumber
  | VBytes "byte list" | VText string
  | VArray "jsvalue list" | VObject "(string \<times> jsvalue) list"
  | VDecimal BigNumber number

definition num_value :: "jsnum \<Rightarrow> jsvalue" where
  "num_value v = (case v of Num n \<Rightarrow> VNumber (Finite (of_int n)) | Big b \<Rightarrow> VBig (BN b)
                  | Undef \<Rightarrow> VUndefined)"

subsection \<open>Runs that may not end\<close>

text \<open>
  The recursive methods take fuel: \<open>None\<close> is a run that has not ended within the fuel
  (with \<open>_limit\<close> undefined an indefinite-length item never ends).
\<close>

definition bindF ::
  "(decoder \<Rightarrow> 'a res option) \<Rightarrow> ('a \<Rightarrow> decoder \<Rightarrow> 'b res option) \<Rightarrow> decoder \<Rightarrow> 'b res option" where
  "bindF m f s =
     (case m s of None \<Rightarrow> None
      | Some (Inl e, s') \<Rightarrow> Some (Inl e, s')
      | Some (Inr x, s') \<Rightarrow> f x s')"

definition total :: "(decoder \<Rightarrow> 'a res) \<Rightarrow> decoder \<Rightarrow> 'a res option" where
  "total m s = Some (m s)"

subsection \<open>The accumulator\<close>

text \<open>
  Modelled from the spec: the class ByteStreamBuffer is not among the sources. The spec
  describes it as an appender with the operations "read all bytes" and "read as
  string", reset by a read: \<open>streamWrite\<close> is its \<open>write\<close>, \<open>streamRead\<close> its \<open>read\<close>,
  \<open>streamReadAsString\<close> its \<open>readAsString\<close>.
\<close>

definition streamWrite :: "byte list \<Rightarrow> decoder \<Rightarrow> unit res" where
  "streamWrite bs s = ret () (set_byteStreamBuffer (byteStreamBuffer s @ bs) s)"

definition streamRead :: "decoder \<Rightarrow> byte list res" where
  "streamRead s = ret (byteStreamBuffer s) (set_byteStreamBuffer [] s)"

text \<open>
  The string of the bytes gathered (\<open>toString\<close> of a Buffer, UTF-8). Bytes below \<open>0x80\<close>
  are the characters with these codes. For any other byte the string depends on the UTF-8
  decoder of the runtime (an ill-formed sequence is replaced by U+FFFD, so that different
  bytes can give the same string): \<open>None\<close>, and the run stops there with \<open>OutsideFragment\<close>.
\<close>

definition string_of_bytes :: "byte list \<Rightarrow> string option" where
  "string_of_bytes bs =
     (if list_all (\<lambda>b. b < 0x80) bs then Some (map (\<lambda>b. char_of (unat b)) bs) else None)"

definition streamReadAsString :: "decoder \<Rightarrow> string res" where
  "streamReadAsString s =
     (case string_of_bytes (byteStreamBuffer s) of
        Some str \<Rightarrow> ret str (set_byteStreamBuffer [] s)
      | None \<Rightarrow> throw OutsideFragment (set_byteStreamBuffer [] s))"

subsection \<open>Byte and text strings\<close>

definition tryDecodeBreak :: "decoder \<Rightarrow> bool res" where
  "tryDecodeBreak =
     bind peek (\<lambda>val.
       if val = Some TYPE_BREAK then bind (consume 1) (\<lambda>_. ret True) else ret False)"

definition tryDecodeNull :: "decoder \<Rightarrow> bool res" where
  "tryDecodeNull =
     bind peek (\<lambda>val.
       if val = Some TYPE_NULL then bind (consume 1) (\<lambda>_. ret True) else ret False)"

text \<open>
  The definite-length branch of \<open>_decodeByteStringsInternal\<close>. \<open>buffer.slice\<close> clamps its
  bounds to the buffer. With a BigNumber length, \<open>this.start + length\<close> is a string of
  digits beyond any buffer, so the slice is the rest of the buffer; with \<open>undefined\<close> it
  is NaN and the slice is empty; \<open>_consume\<close> then leaves an offset that is not a number.
\<close>

definition copyChunk :: "jsnum \<Rightarrow> decoder \<Rightarrow> unit res" where
  "copyChunk len =
     bind (ensureAvailable len) (\<lambda>_ s.
       (case len of
          Num n \<Rightarrow>
            bind (streamWrite (take (nat n) (drop (start s) (buffer s)))) (\<lambda>_. consume (nat n)) s
        | Big b \<Rightarrow>
            bind (streamWrite (drop (start s) (buffer s))) (\<lambda>_. throw OffsetNotNumeric) s
        | Undef \<Rightarrow>
            bind (streamWrite []) (\<lambda>_. throw OffsetNotNumeric) s))"

fun decodeByteStringsInternal :: "nat \<Rightarrow> byte option \<Rightarrow> decoder \<Rightarrow> unit res option"
  and decodeChunks :: "nat \<Rightarrow> decoder \<Rightarrow> unit res option" where
  "decodeByteStringsInternal 0 cborType = (\<lambda>s. None)"
| "decodeByteStringsInternal (Suc fuel) cborType =
     bindF (total (decodeValue cborType)) (\<lambda>len.
       if \<not> loose_eq len (- 1) then total (copyChunk len) else decodeChunks fuel)"
| "decodeChunks 0 = (\<lambda>s. None)"
| "decodeChunks (Suc fuel) =
     bindF (total tryDecodeBreak) (\<lambda>stop.
       if stop then total (ret ())
       else bindF (total peek) (\<lambda>t.
            bindF (decodeByteStringsInternal fuel t) (\<lambda>_. decodeChunks fuel)))"

definition decodeBytes :: "nat \<Rightarrow> decoder \<Rightarrow> byte list res option" where
  "decodeBytes fuel =
     bindF (total peek) (\<lambda>t.
       if \<not> isMajorType t TYPE_BYTES then total (throw NotBytes)
       else bindF (decodeByteStringsInternal fuel t) (\<lambda>_. total streamRead))"

definition decodeString :: "nat \<Rightarrow> decoder \<Rightarrow> string res option" where
  "decodeString fuel =
     bindF (total peek) (\<lambda>t.
       if \<not> isMajorType t TYPE_UTF then total (throw NotString)
       else bindF (decodeByteStringsInternal fuel t) (\<lambda>_. total streamReadAsString))"


subsection \<open>Floats\<close>

definition pow2 :: "int \<Rightarrow> rat" where
  "pow2 k = (if 0 \<le> k then 2 ^ nat k else 1 / 2 ^ nat (- k))"

text \<open>
  \<open>_parseHalf\<close>. The bit operations of JavaScript work on 32-bit integers and read
  \<open>undefined\<close> as 0. Every product below is exact in a double: the factors are a sign, a
  power of two and an integer below \<open>2^11\<close>. \<open>2e308\<close> is the literal of the source for
  infinity, \<open>0 / 0\<close> is NaN.
\<close>

definition parseHalf :: "byte list \<Rightarrow> nat \<Rightarrow> number" where
  "parseHalf buf offset =
     (let b0 = (ucast (toInt32 (buf_at buf offset)) :: 32 word);
          b1 = (ucast (toInt32 (buf_at buf (offset + 1))) :: 32 word);
          sign = (if b0 AND 0x80 \<noteq> 0 then Finite (- 1) else Finite 1);
          exp = drop_bit 2 (b0 AND 0x7C);
          mant = push_bit 8 (b0 AND 0x03) OR b1
      in if exp = 0 then times (times sign (Finite (pow2 (- 24)))) (Finite (of_int (uint mant)))
         else if exp = 0x1F then times sign (if mant \<noteq> 0 then NaN else PosInf)
         else times (times sign (Finite (pow2 (uint exp - 25))))
                (Finite (of_int (1024 + uint mant))))"

text \<open>
  \<open>readFloatBE\<close> and \<open>readDoubleBE\<close> of the runtime: the double with the given IEEE-754
  binary32 or binary64 encoding (\<open>e\<close> exponent bits, \<open>m\<close> fraction bits).
\<close>

definition ieee_value :: "nat \<Rightarrow> nat \<Rightarrow> nat \<Rightarrow> number" where
  "ieee_value e m raw =
     (let neg = (raw div 2 ^ (e + m)) mod 2 = 1;
          ex = (raw div 2 ^ m) mod 2 ^ e;
          frac = raw mod 2 ^ m;
          bias = 2 ^ (e - 1) - 1;
          mag = (if ex = 0 then of_nat frac * pow2 (1 - int bias - int m)
                 else of_nat (2 ^ m + frac) * pow2 (int ex - int bias - int m))
      in if ex = 2 ^ e - 1 then (if frac \<noteq> 0 then NaN else if neg then NegInf else PosInf)
         else if mag = 0 then (if neg then NegZero else Finite 0)
         else Finite (if neg then - mag else mag))"

definition readFloatBE :: "byte list \<Rightarrow> nat \<Rightarrow> error + number" where
  "readFloatBE b off =
     (case readUIntBE 4 b off of Inl e \<Rightarrow> Inl e | Inr raw \<Rightarrow> Inr (ieee_value 8 23 raw))"

definition readDoubleBE :: "byte list \<Rightarrow> nat \<Rightarrow> error + number" where
  "readDoubleBE b off =
     (case readUIntBE 8 b off of Inl e \<Rightarrow> Inl e | Inr raw \<Rightarrow> Inr (ieee_value 11 52 raw))"

definition decodeFloat :: "decoder \<Rightarrow> jsvalue res" where
  "decodeFloat =
     bind peek (\<lambda>t.
       if t = Some TYPE_FLOAT_16 then
         bind (ensureAvailable (Num 3)) (\<lambda>_ s.
           bind (consume (1 + 2)) (\<lambda>_. ret (VNumber (parseHalf (buffer s) (start s + 1)))) s)
       else if t = Some TYPE_FLOAT_32 then
         bind (ensureAvailable (Num 5)) (\<lambda>_.
         bind (\<lambda>s. lift (readFloatBE (buffer s) (start s + 1)) s) (\<lambda>result.
         bind (consume (1 + 4)) (\<lambda>_. ret (VNumber result))))
       else if t = Some TYPE_FLOAT_64 then
         bind (ensureAvailable (Num 9)) (\<lambda>_.
         bind (\<lambda>s. lift (readDoubleBE (buffer s) (start s + 1)) s) (\<lambda>result.
         bind (consume (1 + 8)) (\<lambda>_. ret (VNumber result))))
       else throw NotFloat)"

subsection \<open>Integers, big integers and decimals\<close>

definition decodeTag :: "byte option \<Rightarrow> decoder \<Rightarrow> jsnum res" where
  "decodeTag t = (if \<not> isMajorType t TYPE_TAG then throw NotATag else decodeValue t)"

text \<open>
  \<open>new BigNumber(data.toString('hex'), 16)\<close>: the integer with the big-endian digits
  \<open>data\<close>. The hex string of an empty Buffer is the empty string, which is no numeral:
  bignumber.js raises its error ("not a base 16 number").
\<close>

definition bignumber_of_hex :: "byte list \<Rightarrow> error + BigNumber" where
  "bignumber_of_hex data = (if data = [] then Inl BigNumberError else Inr (BN (int (be_nat data))))"

text \<open>\<open>val.neg().sub(1)\<close> on a BigNumber.\<close>

definition neg_sub_1 :: "BigNumber \<Rightarrow> BigNumber" where
  "neg_sub_1 v = (case v of BN b \<Rightarrow> BN (- b - 1) | BN_NaN \<Rightarrow> BN_NaN)"

definition decodeBigInt :: "nat \<Rightarrow> jsnum \<Rightarrow> decoder \<Rightarrow> jsvalue res option" where
  "decodeBigInt fuel tag =
     (if \<not> loose_eq tag TAG_POSBIGINT \<and> \<not> loose_eq tag TAG_NEGBIGINT
      then total (throw InvalidBigIntTag)
      else
        bindF (total peek) (\<lambda>t.
          if \<not> isMajorType t TYPE_BYTES then total (throw BigIntNotBinary)
          else
            bindF (decodeBytes fuel) (\<lambda>data.
            bindF (total (lift (bignumber_of_hex data))) (\<lambda>val.
              total (ret (VBig (if loose_eq tag TAG_POSBIGINT then val else neg_sub_1 val)))))))"

text \<open>
  \<open>decodeInt\<close>. On a native magnitude \<open>-v - 1\<close> is double arithmetic (the magnitude is at
  most \<open>2^53 - 1\<close>, so it is exact; \<open>-undefined - 1\<close> is NaN).
\<close>

definition decodeInt :: "nat \<Rightarrow> decoder \<Rightarrow> jsvalue res option" where
  "decodeInt fuel =
     bindF (total peek) (\<lambda>t.
       let mt = majorType t in
       if mt \<noteq> TYPE_POSINT \<and> mt \<noteq> TYPE_NEGINT then
         (if mt = TYPE_TAG then
            bindF (total (decodeTag t)) (\<lambda>tag.
              if strict_eq tag TAG_POSBIGINT \<or> strict_eq tag TAG_NEGBIGINT
              then decodeBigInt fuel tag
              else total (throw NotInteger))
          else total (throw NotInteger))
       else
         bindF (total (decodeValue t)) (\<lambda>v.
           total (ret (if mt = TYPE_POSINT then num_value v
                       else (case v of
                               Big b \<Rightarrow> VBig (neg_sub_1 (BN b))
                             | Num n \<Rightarrow> VNumber (number_of_int (- n - 1))
                             | Undef \<Rightarrow> VNumber NaN)))))"

definition decodeArrayLength :: "decoder \<Rightarrow> jsnum res" where
  "decodeArrayLength =
     bind peek (\<lambda>t. if majorType t \<noteq> TYPE_ARRAY then throw NotArray else decodeValue t)"

definition decodeMapLength :: "decoder \<Rightarrow> jsnum res" where
  "decodeMapLength =
     bind peek (\<lambda>t. if majorType t \<noteq> TYPE_MAP then throw NotMap else decodeValue t)"

text \<open>
  \<open>new BigNumber(x)\<close> for what \<open>decodeInt\<close> returns: a copy of a BigNumber; the exact
  value of an integer number of magnitude at most \<open>2^53 - 1\<close>; the error of bignumber.js
  for the number \<open>-2^53\<close> (version 3 of the library, the one \<open>package.json\<close> asks for,
  refuses a number with more than 15 significant digits that is above
  \<open>MAX_SAFE_INTEGER\<close> in magnitude); the library's NaN for NaN; its error for
  \<open>undefined\<close>. No other value comes out of \<open>decodeInt\<close>. \<open>-scale\<close> is the unary minus of
  JavaScript: a BigNumber is first converted to a number (through its string), that is to
  the nearest double.
\<close>

definition new_BigNumber :: "jsvalue \<Rightarrow> error + BigNumber" where
  "new_BigNumber x =
     (case x of
        VBig b \<Rightarrow> Inr b
      | VNumber (Finite q) \<Rightarrow>
          if q = of_int \<lfloor>q\<rfloor> \<and> \<bar>q\<bar> \<le> 2 ^ 53 - 1 then Inr (BN \<lfloor>q\<rfloor>)
          else if q = - (2 ^ 53) then Inl BigNumberError
          else Inl OutsideFragment
      | VNumber NaN \<Rightarrow> Inr BN_NaN
      | VUndefined \<Rightarrow> Inl BigNumberError
      | _ \<Rightarrow> Inl OutsideFragment)"

definition unary_minus :: "jsvalue \<Rightarrow> number" where
  "unary_minus x =
     (case x of
        VNumber n \<Rightarrow> negate n
      | VBig (BN b) \<Rightarrow> negate (number_of_int b)
      | _ \<Rightarrow> NaN)"

definition decodeDecimal :: "nat \<Rightarrow> jsnum \<Rightarrow> decoder \<Rightarrow> jsvalue res option" where
  "decodeDecimal fuel tag =
     (if \<not> loose_eq tag TAG_DECIMAL then total (throw DecimalTag)
      else
        bindF (total decodeArrayLength) (\<lambda>size.
          if \<not> loose_eq size 2 then total (throw DecimalArraySize)
          else
            bindF (decodeInt fuel) (\<lambda>scale.
            bindF (decodeInt fuel) (\<lambda>x.
            bindF (total (lift (new_BigNumber x))) (\<lambda>bi.
              total (ret (VDecimal bi (unary_minus scale))))))))"



subsection \<open>Arrays and maps\<close>

text \<open>
  The loop of \<open>processArray\<close> and \<open>processMap\<close>: \<open>while (i != length)\<close>, with the
  callback threading the array or object it fills. The counter is a double: \<open>i += 1\<close>
  stops changing it at \<open>2^53\<close>.
\<close>

definition increment :: "nat \<Rightarrow> nat" where
  "increment i = (if i = 2 ^ 53 then i else i + 1)"

fun processLoop ::
  "nat \<Rightarrow> ('a \<Rightarrow> decoder \<Rightarrow> 'a res option) \<Rightarrow> nat \<Rightarrow> jsnum \<Rightarrow> 'a \<Rightarrow> decoder \<Rightarrow> 'a res option" where
  "processLoop 0 fn i len acc = (\<lambda>s. None)"
| "processLoop (Suc fuel) fn i len acc =
     (if loose_eq len (int i) then total (ret acc)
      else
        bindF (total tryDecodeBreak) (\<lambda>stop.
          if stop then total (ret acc)
          else bindF (fn acc) (\<lambda>acc'. processLoop fuel fn (increment i) len acc')))"

definition processArray ::
  "nat \<Rightarrow> ('a \<Rightarrow> decoder \<Rightarrow> 'a res option) \<Rightarrow> 'a \<Rightarrow> decoder \<Rightarrow> 'a res option" where
  "processArray fuel fn acc =
     bindF (total decodeArrayLength) (\<lambda>len. processLoop fuel fn 0 len acc)"

definition processMap ::
  "nat \<Rightarrow> ('a \<Rightarrow> decoder \<Rightarrow> 'a res option) \<Rightarrow> 'a \<Rightarrow> decoder \<Rightarrow> 'a res option" where
  "processMap fuel fn acc =
     bindF (total decodeMapLength) (\<lambda>len. processLoop fuel fn 0 len acc)"

definition buildArray ::
  "nat \<Rightarrow> (decoder \<Rightarrow> jsvalue res option) \<Rightarrow> decoder \<Rightarrow> jsvalue res option" where
  "buildArray fuel fn =
     bindF (processArray fuel (\<lambda>a. bindF fn (\<lambda>x. total (ret (a @ [x])))) [])
       (\<lambda>a. total (ret (VArray a)))"

text \<open>
  The property name of a key (\<open>String(k)\<close>), for the keys whose conversion is modelled:
  null, undefined, booleans, texts, integer numbers of magnitude at most \<open>2^53\<close>, NaN and
  the infinities, and BigNumbers below \<open>10^21\<close> (bignumber.js switches to exponential
  notation there). \<open>None\<close> is a key outside this fragment.
\<close>

fun digits :: "nat \<Rightarrow> string" where
  "digits n = (if n < 10 then [char_of (48 + n)] else digits (n div 10) @ [char_of (48 + n mod 10)])"

declare digits.simps [simp del]

definition decimal :: "int \<Rightarrow> string" where
  "decimal x = (if x < 0 then CHR ''-'' # digits (nat (- x)) else digits (nat x))"

definition toPropertyKey :: "jsvalue \<Rightarrow> string option" where
  "toPropertyKey k =
     (case k of
        VNull \<Rightarrow> Some ''null''
      | VUndefined \<Rightarrow> Some ''undefined''
      | VBool b \<Rightarrow> Some (if b then ''true'' else ''false'')
      | VText s \<Rightarrow> Some s
      | VNumber (Finite q) \<Rightarrow>
          if q = of_int \<lfloor>q\<rfloor> \<and> \<bar>q\<bar> \<le> 2 ^ 53 then Some (decimal \<lfloor>q\<rfloor>) else None
      | VNumber NegZero \<Rightarrow> Some ''0''
      | VNumber PosInf \<Rightarrow> Some ''Infinity''
      | VNumber NegInf \<Rightarrow> Some ''-Infinity''
      | VNumber NaN \<Rightarrow> Some ''NaN''
      | VBig (BN b) \<Rightarrow> if \<bar>b\<bar> < 10 ^ 21 then Some (decimal b) else None
      | VBig BN_NaN \<Rightarrow> Some ''NaN''
      | _ \<Rightarrow> None)"

text \<open>An object or null: what the setter of \<open>__proto__\<close> installs as the prototype.\<close>

definition is_object_or_null :: "jsvalue \<Rightarrow> bool" where
  "is_object_or_null v =
     (case v of VNull \<Rightarrow> True | VBig _ \<Rightarrow> True | VBytes _ \<Rightarrow> True | VArray _ \<Rightarrow> True
      | VObject _ \<Rightarrow> True | VDecimal _ _ \<Rightarrow> True | _ \<Rightarrow> False)"

text \<open>
  The callback of \<open>buildMap\<close> on the object \<open>m = {}\<close> being filled.
  \<open>m.hasOwnProperty(k)\<close> first looks the method up: an earlier entry with the key
  \<open>hasOwnProperty\<close> has shadowed it with a decoded value, and calling that is a
  TypeError. \<open>m[k] = v\<close> with the name \<open>__proto__\<close> reaches the setter of
  \<open>Object.prototype\<close>: it ignores a primitive \<open>v\<close> and creates no own property; for an
  object or null it replaces the prototype of \<open>m\<close>, where this model stops.
\<close>

definition mapEntry ::
  "(string \<times> jsvalue) list \<Rightarrow> jsvalue \<times> jsvalue \<Rightarrow> decoder \<Rightarrow> (string \<times> jsvalue) list res" where
  "mapEntry m r =
     (let k = fst r; v = snd r in
      if ''hasOwnProperty'' \<in> fst ` set m then throw TypeError
      else
        (case toPropertyKey k of
           None \<Rightarrow> throw OutsideFragment
         | Some p \<Rightarrow>
             if p \<in> fst ` set m then throw DuplicateKey
             else if p = ''__proto__'' then
               (if is_object_or_null v then throw OutsideFragment else ret m)
             else ret (m @ [(p, v)])))"

definition buildMap ::
  "nat \<Rightarrow> (decoder \<Rightarrow> (jsvalue \<times> jsvalue) res option) \<Rightarrow> decoder \<Rightarrow> jsvalue res option" where
  "buildMap fuel fn =
     bindF (processMap fuel (\<lambda>m. bindF fn (\<lambda>r. total (mapEntry m r))) [])
       (\<lambda>m. total (ret (VObject m)))"

subsection \<open>Any value\<close>

text \<open>
  \<open>tagHandlers\<close> is the optional registry given to the constructor: \<open>None\<close> when there is
  none, else a lookup from the tag to the handler, a function of the tag that reads the
  tagged item from the decoder itself.
\<close>

type_synonym handlers = "(jsnum \<Rightarrow> (jsnum \<Rightarrow> decoder \<Rightarrow> jsvalue res) option) option"

definition decodeTaggedType ::
  "handlers \<Rightarrow> nat \<Rightarrow> (decoder \<Rightarrow> jsvalue res option) \<Rightarrow> byte option \<Rightarrow> decoder \<Rightarrow> jsvalue res option" where
  "decodeTaggedType tagHandlers fuel decodeObject t =
     bindF (total (decodeTag t)) (\<lambda>tag.
       if strict_eq tag TAG_POSBIGINT \<or> strict_eq tag TAG_NEGBIGINT then decodeBigInt fuel tag
       else if strict_eq tag TAG_DECIMAL then decodeDecimal fuel tag
       else
         (case tagHandlers of
            None \<Rightarrow> decodeObject
          | Some lookup \<Rightarrow>
              (case lookup tag of None \<Rightarrow> decodeObject | Some handler \<Rightarrow> total (handler tag))))"

fun decodeObject :: "handlers \<Rightarrow> nat \<Rightarrow> decoder \<Rightarrow> jsvalue res option" where
  "decodeObject tagHandlers 0 = (\<lambda>s. None)"
| "decodeObject tagHandlers (Suc fuel) =
     bindF (total tryDecodeNull) (\<lambda>isNull.
       if isNull then total (ret VNull)
       else
         bindF (total peek) (\<lambda>t.
           if t = Some TYPE_NULL \<or> t = Some TYPE_UNDEFINED then
             bindF (total (consume 1)) (\<lambda>_. total (ret VNull))
           else if t = Some TYPE_TRUE then
             bindF (total (consume 1)) (\<lambda>_. total (ret (VBool True)))
           else if t = Some TYPE_FALSE then
             bindF (total (consume 1)) (\<lambda>_. total (ret (VBool False)))
           else if t = Some TYPE_FLOAT_16 \<or> t = Some TYPE_FLOAT_32 \<or> t = Some TYPE_FLOAT_64 then
             total decodeFloat
           else if t = Some TYPE_BREAK then total (throw UnexpectedBreak)
           else
             (let mt = majorType t in
              if mt = TYPE_POSINT \<or> mt = TYPE_NEGINT then decodeInt fuel
              else if mt = TYPE_BYTES then
                bindF (decodeBytes fuel) (\<lambda>b. total (ret (VBytes b)))
              else if mt = TYPE_UTF then
                bindF (decodeString fuel) (\<lambda>x. total (ret (VText x)))
              else if mt = TYPE_ARRAY then
                buildArray fuel (decodeObject tagHandlers fuel)
              else if mt = TYPE_MAP then
                buildMap fuel
                  (bindF (decodeObject tagHandlers fuel) (\<lambda>k.
                   bindF (decodeObject tagHandlers fuel) (\<lambda>v. total (ret (k, v)))))
              else if mt = TYPE_TAG then
                decodeTaggedType tagHandlers fuel (decodeObject tagHandlers fuel) t
              else total (throw UnhandledType))))"



subsection \<open>Nested buffers\<close>



section \<open>Notions used in the statements\<close>

text \<open>The test of \<open>_ensureAvailable\<close>, and the number of extension bytes a type byte
  announces.\<close>

definition available :: "jsnum \<Rightarrow> decoder \<Rightarrow> bool" where
  "available n s =
     (case limit s of None \<Rightarrow> True | Some l \<Rightarrow> \<not> js_less (int l - int (start s)) n)"

definition extension_byte_count :: "byte option \<Rightarrow> nat" where
  "extension_byte_count v =
     (let size = minorType v in
      if size = SIZE_8 then 1 else if size = SIZE_16 then 2
      else if size = SIZE_32 then 4 else if size = SIZE_64 then 8 else 0)"

text \<open>
  The value of the IEEE-754 binary16 fields in the words of the claim: a sign bit \<open>s\<close>, a
  5-bit exponent \<open>e\<close> and a 10-bit mantissa \<open>m\<close>. \<open>signed\<close> attaches the sign to a
  magnitude (a double has two zeros).
\<close>

definition signed :: "bool \<Rightarrow> rat \<Rightarrow> number" where
  "signed s q = (if q = 0 then (if s then NegZero else Finite 0) else Finite (if s then - q else q))"

definition half_value :: "bool \<Rightarrow> nat \<Rightarrow> nat \<Rightarrow> number" where
  "half_value s e m =
     (if e = 0 then signed s (pow2 (- 24) * of_nat m)
      else if e = 31 then (if m = 0 then (if s then NegInf else PosInf) else NaN)
      else signed s (pow2 (int e - 25) * of_nat (1024 + m)))"

text \<open>
  A definite-length byte-string chunk on the wire: a type byte \<open>t\<close> of the major type
  byte string, the extension bytes \<open>ext\<close> its minor type announces, and the content \<open>c\<close>,
  whose length is the magnitude encoded by \<open>t\<close> and \<open>ext\<close> (a native number, at most
  \<open>2^53 - 1\<close>).
\<close>

definition header_value :: "byte \<Rightarrow> byte list \<Rightarrow> nat option" where
  "header_value t ext =
     (let size = minorType (Some t) in
      if size < SIZE_8 then (if ext = [] then Some (unat size) else None)
      else if size = SIZE_8 then (if length ext = 1 then Some (be_nat ext) else None)
      else if size = SIZE_16 then (if length ext = 2 then Some (be_nat ext) else None)
      else if size = SIZE_32 then (if length ext = 4 then Some (be_nat ext) else None)
      else if size = SIZE_64 then
        (if length ext = 8 \<and> be_nat ext \<le> 2 ^ 53 - 1 then Some (be_nat ext) else None)
      else None)"

type_synonym chunk = "byte \<times> byte list \<times> byte list"

definition chunk_bytes :: "chunk \<Rightarrow> byte list" where
  "chunk_bytes ch = (case ch of (t, ext, c) \<Rightarrow> t # ext @ c)"

definition chunk_content :: "chunk \<Rightarrow> byte list" where
  "chunk_content ch = (case ch of (t, ext, c) \<Rightarrow> c)"

definition valid_chunk :: "chunk \<Rightarrow> bool" where
  "valid_chunk ch =
     (case ch of (t, ext, c) \<Rightarrow>
        majorType (Some t) = TYPE_BYTES \<and> header_value t ext = Some (length c))"

text \<open>
  The magnitude a type byte \<open>t\<close> and the extension bytes \<open>ext\<close> that follow it encode on
  the wire: the minor type itself below 24, else the big-endian value of the 1, 2, 4 or
  8 extension bytes the minor type announces. \<open>None\<close> when \<open>ext\<close> is not of the announced
  length or the minor type announces no magnitude.
\<close>

definition encoded_magnitude :: "byte \<Rightarrow> byte list \<Rightarrow> nat option" where
  "encoded_magnitude t ext =
     (let size = minorType (Some t) in
      if size < SIZE_8 then (if ext = [] then Some (unat size) else None)
      else if size = SIZE_8 then (if length ext = 1 then Some (be_nat ext) else None)
      else if size = SIZE_16 then (if length ext = 2 then Some (be_nat ext) else None)
      else if size = SIZE_32 then (if length ext = 4 then Some (be_nat ext) else None)
      else if size = SIZE_64 then (if length ext = 8 then Some (be_nat ext) else None)
      else None)"

text \<open>The extension bytes that follow the type byte at the offset, as many as the type
  byte announces and the buffer holds.\<close>

definition extension_bytes :: "byte \<Rightarrow> decoder \<Rightarrow> byte list" where
  "extension_bytes t s = take (extension_byte_count (Some t)) (drop (start s + 1) (buffer s))"





text \<open>A run that does not raise NeedMoreData and leaves the limit unset.\<close>

definition never_incomplete :: "'a res option \<Rightarrow> bool" where
  "never_incomplete r =
     (case r of None \<Rightarrow> True | Some (x, d) \<Rightarrow> x \<noteq> Inl NeedMoreData \<and> limit d = None)"







section \<open>Properties of the decoder\<close>

subsection \<open>Rounding to a double\<close>

lemma bitlen_bounds: "0 < n \<Longrightarrow> 2 ^ (bitlen n - 1) \<le> n \<and> n < 2 ^ bitlen n"
proof (induction n rule: bitlen.induct)
  case (1 n)
  show ?case
  proof (cases "n div 2 = 0")
    case True
    with 1(2) have "n = 1" by (simp add: div_eq_0_iff)
    then show ?thesis by (simp add: bitlen.simps)
  next
    case False
    then have h: "2 ^ (bitlen (n div 2) - 1) \<le> n div 2 \<and> n div 2 < 2 ^ bitlen (n div 2)"
      using 1 by simp
    have b: "bitlen n = Suc (bitlen (n div 2))" using 1(2) by (simp add: bitlen.simps[of n])
    have p: "0 < bitlen (n div 2)" using False by (simp add: bitlen.simps[of "n div 2"])
    from h p have "2 * 2 ^ (bitlen (n div 2) - 1) \<le> n" by linarith
    moreover have "2 * 2 ^ (bitlen (n div 2) - 1) = (2::nat) ^ bitlen (n div 2)"
      using p by (cases "bitlen (n div 2)") auto
    moreover from h have "n < 2 * 2 ^ bitlen (n div 2)" by linarith
    ultimately show ?thesis by (simp add: b)
  qed
qed

lemma round_double_small: "\<bar>x\<bar> < 2 ^ 53 \<Longrightarrow> round_double x = x"
proof -
  assume "\<bar>x\<bar> < 2 ^ 53"
  then have "nat \<bar>x\<bar> < 2 ^ 53" by (simp add: nat_less_iff)
  then show ?thesis by (simp add: round_double_def Let_def)
qed

lemma round_double_eq:
  assumes "2 ^ 53 \<le> x"
  shows "round_double x =
    int ((if 2 ^ (bitlen (nat x) - 53) < 2 * (nat x mod 2 ^ (bitlen (nat x) - 53))
           \<or> (2 * (nat x mod 2 ^ (bitlen (nat x) - 53)) = 2 ^ (bitlen (nat x) - 53)
               \<and> odd (nat x div 2 ^ (bitlen (nat x) - 53)))
         then nat x div 2 ^ (bitlen (nat x) - 53) + 1
         else nat x div 2 ^ (bitlen (nat x) - 53)) * 2 ^ (bitlen (nat x) - 53))"
proof -
  have ax: "\<bar>x\<bar> = x" using assms by simp
  have na: "\<not> nat x < 2 ^ 53" using assms by (simp add: nat_less_iff)
  have sg: "sgn x = 1" using assms by (simp add: sgn_if)
  show ?thesis
    unfolding round_double_def Let_def ax
    by (simp only: na if_False sg mult_1)
qed

lemma scale_le:
  fixes q k P :: nat
  assumes "P \<le> q * 2 ^ k"
  shows "P \<le> (if c then q + 1 else q) * 2 ^ k"
  using assms by (cases c) (simp_all add: algebra_simps)

lemma round_double_large:
  assumes "2 ^ 53 \<le> x"
  shows "2 ^ 53 \<le> round_double x"
proof -
  define a where "a = nat x"
  define k where "k = bitlen a - 53"
  define q where "q = a div 2 ^ k"
  have a: "2 ^ 53 \<le> a" using assms by (simp add: a_def le_nat_iff)
  have apos: "0 < a" using a by simp
  have bl: "2 ^ (bitlen a - 1) \<le> a" "a < 2 ^ bitlen a"
    using bitlen_bounds[OF apos] by auto
  have "(2::nat) ^ 53 < 2 ^ bitlen a" using a bl by linarith
  then have b54: "53 < bitlen a" by (rule power_less_imp_less_exp[rotated]) simp
  have "bitlen a - 1 = 52 + k" using b54 by (simp add: k_def)
  then have "(2::nat) ^ (bitlen a - 1) = 2 ^ 52 * 2 ^ k" by (simp only: power_add)
  then have "2 ^ 52 * 2 ^ k \<le> a" using bl by simp
  then have q52: "2 ^ 52 \<le> q"
    unfolding q_def by (simp add: less_eq_div_iff_mult_less_eq)
  have k1: "1 \<le> k" using b54 by (simp add: k_def)
  have "(2::nat) ^ 1 \<le> 2 ^ k" using k1 by (intro power_increasing) auto
  then have two: "(2::nat) \<le> 2 ^ k" by simp
  have "(2::nat) ^ 52 * 2 \<le> q * 2 ^ k" using q52 two by (rule mult_le_mono)
  then have n1: "(2::nat) ^ 53 \<le> q * 2 ^ k" by simp
  have "(2::nat) ^ 53 \<le> (if 2 ^ k < 2 * (a mod 2 ^ k) \<or> (2 * (a mod 2 ^ k) = 2 ^ k \<and> odd q)
      then q + 1 else q) * 2 ^ k"
    using n1 by (rule scale_le)
  then have "int (2 ^ 53) \<le> int ((if 2 ^ k < 2 * (a mod 2 ^ k) \<or> (2 * (a mod 2 ^ k) = 2 ^ k \<and> odd q)
      then q + 1 else q) * 2 ^ k)"
    by (simp only: of_nat_le_iff)
  then have "int (2 ^ 53) \<le> round_double x"
    unfolding round_double_eq[OF assms] q_def k_def a_def .
  then show ?thesis by simp
qed

lemma safe_iff:
  assumes "0 \<le> x"
  shows "(MIN_SAFE_INTEGER \<le> round_double x \<and> round_double x \<le> MAX_SAFE_INTEGER)
     \<longleftrightarrow> x \<le> 2 ^ 53 - 1"
proof (cases "x < 2 ^ 53")
  case True
  then have "round_double x = x" using assms by (intro round_double_small) simp
  then show ?thesis using assms True by (simp add: MIN_SAFE_INTEGER_def MAX_SAFE_INTEGER_def)
next
  case False
  then have "2 ^ 53 \<le> round_double x" by (intro round_double_large) simp
  then show ?thesis using False by (simp add: MAX_SAFE_INTEGER_def)
qed

subsection \<open>The cursor and the primitive value reader\<close>

lemma ensureAvailable_eq:
  "ensureAvailable n s = (if available n s then (Inr (), s) else (Inl NeedMoreData, s))"
  by (simp add: ensureAvailable_def available_def ret_def throw_def split: option.splits)

lemma bind_ensureAvailable:
  "bind (ensureAvailable n) f s = (if available n s then f () s else (Inl NeedMoreData, s))"
  by (simp add: bind_def ensureAvailable_eq)

lemma bind_lift:
  "bind (\<lambda>s. lift (r s) s) f s = (case r s of Inl e \<Rightarrow> (Inl e, s) | Inr x \<Rightarrow> f x s)"
  by (simp add: bind_def lift_def split: sum.splits)

lemma finish_eq: "finish r k s = (Inr r, set_start (start s + (1 + k)) s)"
  by (simp add: finish_def bind_def consume_def ret_def)

lemma available_Num:
  "available (Num (int n)) s = (case limit s of None \<Rightarrow> True | Some l \<Rightarrow> start s + n \<le> l)"
  by (auto simp: available_def js_less_def split: option.splits)

lemma decodeValue_inline:
  "minorType v < SIZE_8 \<Longrightarrow>
   decodeValue v s = (Inr (Num (uint (minorType v))), set_start (start s + 1) s)"
  by (simp add: decodeValue_def Let_def finish_eq)

lemma decodeValue_8:
  "minorType v = SIZE_8 \<Longrightarrow>
   decodeValue v s =
     (if available (Num 2) s then
        (Inr (case buf_at (buffer s) (start s + 1) of None \<Rightarrow> Undef | Some b \<Rightarrow> Num (uint b)),
         set_start (start s + 2) s)
      else (Inl NeedMoreData, s))"
  by (simp add: decodeValue_def Let_def bind_ensureAvailable finish_eq)

lemma decodeValue_16:
  "minorType v = SIZE_16 \<Longrightarrow>
   decodeValue v s =
     (if available (Num 3) s then
        (case readUInt16BE (buffer s) (start s + 1) of
           Inl e \<Rightarrow> (Inl e, s)
         | Inr r \<Rightarrow> (Inr (Num (int r)), set_start (start s + 3) s))
      else (Inl NeedMoreData, s))"
  by (simp add: decodeValue_def Let_def bind_ensureAvailable bind_lift finish_eq cbor_codes
      add.commute[of _ "numeral _ :: nat"] split: sum.splits)

lemma decodeValue_32:
  "minorType v = SIZE_32 \<Longrightarrow>
   decodeValue v s =
     (if available (Num 5) s then
        (case readUInt32BE (buffer s) (start s + 1) of
           Inl e \<Rightarrow> (Inl e, s)
         | Inr r \<Rightarrow> (Inr (Num (int r)), set_start (start s + 5) s))
      else (Inl NeedMoreData, s))"
  by (simp add: decodeValue_def Let_def bind_ensureAvailable bind_lift finish_eq cbor_codes
      add.commute[of _ "numeral _ :: nat"] split: sum.splits)

lemma decodeValue_64:
  "minorType v = SIZE_64 \<Longrightarrow>
   decodeValue v s =
     (if available (Num 9) s then
        (case readUInt32BE (buffer s) (start s + 1) of
           Inl e \<Rightarrow> (Inl e, s)
         | Inr f \<Rightarrow>
            (case readUInt32BE (buffer s) (start s + 5) of
               Inl e \<Rightarrow> (Inl e, s)
             | Inr g \<Rightarrow>
                (Inr (if MIN_SAFE_INTEGER \<le> round_double (int f * 2 ^ 32 + int g)
                         \<and> round_double (int f * 2 ^ 32 + int g) \<le> MAX_SAFE_INTEGER
                      then Num (round_double (int f * 2 ^ 32 + int g))
                      else Big (int f * 2 ^ 32 + int g)),
                 set_start (start s + 9) s)))
      else (Inl NeedMoreData, s))"
  by (simp add: decodeValue_def Let_def bind_ensureAvailable bind_lift finish_eq cbor_codes
      add.commute[of _ "numeral _ :: nat"] split: sum.splits)

lemma decodeValue_stream:
  "minorType v = SIZE_STREAM \<Longrightarrow>
   decodeValue v s = (Inr (Num (- 1)), set_start (start s + 1) s)"
  by (simp add: decodeValue_def Let_def finish_eq cbor_codes)

lemma decodeValue_invalid:
  "\<not> minorType v < SIZE_8 \<Longrightarrow> minorType v \<noteq> SIZE_8 \<Longrightarrow> minorType v \<noteq> SIZE_16 \<Longrightarrow>
   minorType v \<noteq> SIZE_32 \<Longrightarrow> minorType v \<noteq> SIZE_64 \<Longrightarrow> minorType v \<noteq> SIZE_STREAM \<Longrightarrow>
   decodeValue v s = (Inl InvalidSize, s)"
  by (simp add: decodeValue_def Let_def throw_def)

lemma minorType_cases:
  obtains (inline) "minorType v < SIZE_8"
  | (s8) "minorType v = SIZE_8" | (s16) "minorType v = SIZE_16"
  | (s32) "minorType v = SIZE_32" | (s64) "minorType v = SIZE_64"
  | (stream) "minorType v = SIZE_STREAM"
  | (invalid) "\<not> minorType v < SIZE_8" "minorType v \<noteq> SIZE_8" "minorType v \<noteq> SIZE_16"
      "minorType v \<noteq> SIZE_32" "minorType v \<noteq> SIZE_64" "minorType v \<noteq> SIZE_STREAM"
  by blast

lemma decodeValue_error_state:
  assumes "fst (decodeValue v s) = Inl e"
  shows "snd (decodeValue v s) = s"
proof (cases v rule: minorType_cases)
  case inline with assms show ?thesis by (simp add: decodeValue_inline)
next
  case s8 with assms show ?thesis
    by (simp add: decodeValue_8 split: if_splits)
next
  case s16 with assms show ?thesis
    by (simp add: decodeValue_16 split: if_splits sum.splits)
next
  case s32 with assms show ?thesis
    by (simp add: decodeValue_32 split: if_splits sum.splits)
next
  case s64 with assms show ?thesis
    by (simp add: decodeValue_64 split: if_splits sum.splits)
next
  case stream with assms show ?thesis by (simp add: decodeValue_stream)
next
  case invalid with assms show ?thesis by (simp add: decodeValue_invalid)
qed

lemma decodeValue_success_state:
  assumes "fst (decodeValue v s) = Inr r"
  shows "snd (decodeValue v s) = set_start (start s + (1 + extension_byte_count v)) s"
proof (cases v rule: minorType_cases)
  case inline with assms show ?thesis
    by (auto simp: decodeValue_inline extension_byte_count_def Let_def cbor_codes)
next
  case s8 with assms show ?thesis
    by (simp add: decodeValue_8 extension_byte_count_def Let_def split: if_splits;
        simp add: eval_nat_numeral)
next
  case s16 with assms show ?thesis
    by (simp add: decodeValue_16 extension_byte_count_def Let_def cbor_codes
        split: if_splits sum.splits; simp add: eval_nat_numeral)
next
  case s32 with assms show ?thesis
    by (simp add: decodeValue_32 extension_byte_count_def Let_def cbor_codes
        split: if_splits sum.splits; simp add: eval_nat_numeral)
next
  case s64 with assms show ?thesis
    by (simp add: decodeValue_64 extension_byte_count_def Let_def cbor_codes
        split: if_splits sum.splits; simp add: eval_nat_numeral)
next
  case stream with assms show ?thesis
    by (simp add: decodeValue_stream extension_byte_count_def Let_def cbor_codes)
next
  case invalid with assms show ?thesis
    by (simp add: decodeValue_invalid)
qed

text \<open>
  C2: when \<open>_decodeValue\<close> raises NeedMoreData the decoder is unchanged (so is the read
  offset), and when it returns, the offset has advanced by exactly 1 plus the number of
  extension bytes of the type byte.
\<close>

theorem decodeValue_atomic:
  "(fst (decodeValue v s) = Inl NeedMoreData \<longrightarrow> snd (decodeValue v s) = s) \<and>
   (\<forall>r. fst (decodeValue v s) = Inr r \<longrightarrow>
      start (snd (decodeValue v s)) = start s + (1 + extension_byte_count v))"
  using decodeValue_error_state[of v s NeedMoreData] decodeValue_success_state[of v s]
  by (auto simp: set_start_def)

theorem decodeValue_atomic_witness:
  "fst (decodeValue (Some 0x19) (CborDecoder [0x19, 0x01] None None)) = Inl NeedMoreData \<and>
   snd (decodeValue (Some 0x19) (CborDecoder [0x19, 0x01] None None))
     = CborDecoder [0x19, 0x01] None None \<and>
   fst (decodeValue (Some 0x19) (CborDecoder [0x19, 0x01, 0x02] None None)) = Inr (Num 258) \<and>
   start (snd (decodeValue (Some 0x19) (CborDecoder [0x19, 0x01, 0x02] None None))) = 3"
proof -
  have m: "minorType (Some 0x19) = SIZE_16"
    by (simp add: minorType_def toInt32_def cbor_codes)
  have a: "fst (decodeValue (Some 0x19) (CborDecoder [0x19, 0x01] None None)) = Inl NeedMoreData"
    by (simp add: decodeValue_16[OF m] available_def js_less_def CborDecoder_def)
  have b: "fst (decodeValue (Some 0x19) (CborDecoder [0x19, 0x01, 0x02] None None)) = Inr (Num 258)"
    by (simp add: decodeValue_16[OF m] available_def js_less_def CborDecoder_def
        readUInt16BE_def readUIntBE_def be_nat_def)
  have c: "extension_byte_count (Some 0x19) = 2"
    by (simp add: extension_byte_count_def m cbor_codes)
  show ?thesis
    using decodeValue_atomic[of "Some 0x19" "CborDecoder [0x19, 0x01] None None"]
      decodeValue_atomic[of "Some 0x19" "CborDecoder [0x19, 0x01, 0x02] None None"] a b c
    by (simp add: CborDecoder_def)
qed

lemma decodeValue_64_exact:
  assumes m: "minorType v = SIZE_64"
    and len: "start s + 9 \<le> length (buffer s)"
    and lm: "case limit s of None \<Rightarrow> True | Some l \<Rightarrow> start s + 9 \<le> l"
  shows "decodeValue v s =
    (let high = be_nat (take 4 (drop (start s + 1) (buffer s)));
         low = be_nat (take 4 (drop (start s + 5) (buffer s)));
         x = int high * 2 ^ 32 + int low
     in (Inr (if x \<le> 2 ^ 53 - 1 then Num x else Big x), set_start (start s + 9) s))"
proof -
  define high where "high = be_nat (take 4 (drop (start s + 1) (buffer s)))"
  define low where "low = be_nat (take 4 (drop (start s + 5) (buffer s)))"
  define x where "x = int high * 2 ^ 32 + int low"
  have x0: "0 \<le> x" by (simp add: x_def)
  have av: "available (Num 9) s" using lm available_Num[of 9 s] by simp
  have r1: "readUInt32BE (buffer s) (Suc (start s)) = Inr high"
    using len by (simp add: readUInt32BE_def readUIntBE_def high_def)
  have r2: "readUInt32BE (buffer s) (start s + 5) = Inr low"
    using len by (simp add: readUInt32BE_def readUIntBE_def low_def)
  have dv: "decodeValue v s =
      (Inr (if MIN_SAFE_INTEGER \<le> round_double x \<and> round_double x \<le> MAX_SAFE_INTEGER
            then Num (round_double x) else Big x), set_start (start s + 9) s)"
    unfolding decodeValue_64[OF m]
    by (simp add: av r1 r2 x_def)
  have eq: "decodeValue v s =
      (Inr (if x \<le> 2 ^ 53 - 1 then Num x else Big x), set_start (start s + 9) s)"
  proof (cases "x \<le> 2 ^ 53 - 1")
    case True
    then have rx: "round_double x = x"
      using x0 by (intro round_double_small) simp
    have "MIN_SAFE_INTEGER \<le> round_double x \<and> round_double x \<le> MAX_SAFE_INTEGER"
      using True by (simp only: safe_iff[OF x0])
    with True dv show ?thesis by (simp only: rx) simp
  next
    case False
    with dv show ?thesis by (simp only: safe_iff[OF x0] if_False)
  qed
  then show ?thesis unfolding Let_def high_def low_def x_def .
qed

text \<open>
  C1: on a type byte with the minor type SIZE_64 and at least 9 bytes available,
  \<open>_decodeValue\<close> reads the two big-endian 32-bit halves \<open>high\<close> and \<open>low\<close> and returns
  exactly \<open>high * 2^32 + low\<close>: as a native number when that is at most \<open>2^53 - 1\<close>, as a
  BigNumber otherwise. It consumes the 9 bytes.
\<close>

theorem decodeValue_SIZE_64:
  assumes m: "minorType v = SIZE_64"
    and len: "start s + 9 \<le> length (buffer s)"
    and lm: "case limit s of None \<Rightarrow> True | Some l \<Rightarrow> start s + 9 \<le> l"
  shows "decodeValue v s =
    (let high = be_nat (take 4 (drop (start s + 1) (buffer s)));
         low = be_nat (take 4 (drop (start s + 5) (buffer s)));
         x = int high * 2 ^ 32 + int low
     in (Inr (if x \<le> 2 ^ 53 - 1 then Num x else Big x), set_start (start s + 9) s))"
  using m len lm by (rule decodeValue_64_exact)

text \<open>The two values at the boundary: \<open>2^53 - 1\<close> comes back as a number, \<open>2^53\<close> as a
  BigNumber, both exact.\<close>

theorem decodeValue_SIZE_64_boundary:
  "decodeValue (Some 0x1B) (CborDecoder [0x1B, 0x00, 0x1F, 0xFF, 0xFF, 0xFF, 0xFF, 0xFF, 0xFF] None None)
     = (Inr (Num (2 ^ 53 - 1)),
        set_start 9 (CborDecoder [0x1B, 0x00, 0x1F, 0xFF, 0xFF, 0xFF, 0xFF, 0xFF, 0xFF] None None)) \<and>
   decodeValue (Some 0x1B) (CborDecoder [0x1B, 0x00, 0x20, 0x00, 0x00, 0x00, 0x00, 0x00, 0x00] None None)
     = (Inr (Big (2 ^ 53)),
        set_start 9 (CborDecoder [0x1B, 0x00, 0x20, 0x00, 0x00, 0x00, 0x00, 0x00, 0x00] None None))"
proof -
  have m: "minorType (Some 0x1B) = SIZE_64"
    by (simp add: minorType_def toInt32_def SIZE_64_def)
  show ?thesis
    using decodeValue_SIZE_64[OF m, of "CborDecoder [0x1B, 0x00, 0x1F, 0xFF, 0xFF, 0xFF, 0xFF, 0xFF, 0xFF] None None"]
      decodeValue_SIZE_64[OF m, of "CborDecoder [0x1B, 0x00, 0x20, 0x00, 0x00, 0x00, 0x00, 0x00, 0x00] None None"]
    by (simp add: CborDecoder_def be_nat_def Let_def)
qed

subsection \<open>Half-precision floats\<close>

lemma times_sign:
  assumes "0 < p" "0 \<le> r"
  shows "times (times (if s then Finite (- 1) else Finite 1) (Finite p)) (Finite r) = signed s (p * r)"
  using assms
  by (cases s) (auto simp: times_def is_inf_def is_zero_def is_negative_def signed_def)

lemma times_sign_special:
  "times (if s then Finite (- 1) else Finite 1) NaN = NaN"
  "times (if s then Finite (- 1) else Finite 1) PosInf = (if s then NegInf else PosInf)"
  by (cases s; simp add: times_def is_inf_def is_zero_def is_negative_def)+

lemma pow2_pos: "0 < pow2 k"
  by (simp add: pow2_def)

lemma numeral_0x80: "(0x80 :: 32 word) = push_bit 7 1" by simp
lemma numeral_0x7C: "(0x7C :: 32 word) = push_bit 2 (mask 5)" by (simp add: mask_eq_exp_minus_1)
lemma numeral_0x03: "(0x03 :: 32 word) = mask 2" by (simp add: mask_eq_exp_minus_1)

lemma half_sign:
  fixes b0 :: byte
  shows "((ucast b0 :: 32 word) AND 0x80 \<noteq> 0) = bit b0 7"
proof -
  have "(ucast b0 :: 32 word) AND push_bit 7 1 = (if bit b0 7 then push_bit 7 1 else 0)"
    apply (rule bit_word_eqI)
    apply (simp only: bit_simps split: if_split)
    apply auto
    done
  then show ?thesis unfolding numeral_0x80 by (simp split: if_splits)
qed

lemma half_exp:
  fixes b0 :: byte
  shows "drop_bit 2 ((ucast b0 :: 32 word) AND 0x7C) = ucast (take_bit 5 (drop_bit 2 b0))"
  unfolding numeral_0x7C
  apply (rule bit_word_eqI)
  apply (simp only: bit_simps o_apply)
  apply (auto dest: bit_imp_le_length)
  done

lemma half_mant:
  fixes b0 b1 :: byte
  shows "push_bit 8 ((ucast b0 :: 32 word) AND 0x03) OR ucast b1
    = push_bit 8 (ucast (take_bit 2 b0)) + ucast b1"
proof -
  have "push_bit 8 ((ucast b0 :: 32 word) AND mask 2) OR ucast b1
    = push_bit 8 (ucast (take_bit 2 b0)) OR ucast b1"
    apply (rule bit_word_eqI)
    apply (simp only: bit_simps o_apply)
    apply (auto dest: bit_imp_le_length)
    done
  moreover have "push_bit 8 (ucast (take_bit 2 b0) :: 32 word) OR ucast b1
    = push_bit 8 (ucast (take_bit 2 b0)) + ucast b1"
    apply (rule disjunctive_add[symmetric])
    apply (simp only: bit_simps o_apply)
    apply (auto dest: bit_imp_le_length)
    done
  ultimately show ?thesis unfolding numeral_0x03 by simp
qed

lemma byte_take8: fixes b :: byte shows "take_bit 8 (unat b) = unat b"
proof -
  have "unat b < 2 ^ 8" using unsigned_less[of b, where ?'a = nat] by simp
  then show ?thesis by (rule take_bit_nat_eq_self)
qed

lemma exp_field_unat: fixes b0 :: byte shows "unat (ucast (take_bit 5 (drop_bit 2 b0)) :: 32 word) = (unat b0 div 4) mod 32"
proof -
  have "unat (ucast (take_bit 5 (drop_bit 2 b0)) :: 32 word) = take_bit 32 (unat (take_bit 5 (drop_bit 2 b0)))"
    by (simp only: unsigned_ucast_eq) simp
  also have "unat (take_bit 5 (drop_bit 2 b0)) = take_bit 5 (drop_bit 2 (unat b0))"
    by (simp only: unsigned_take_bit_eq unsigned_drop_bit_eq)
       (simp add: byte_take8)
  also have "take_bit 32 (take_bit 5 (drop_bit 2 (unat b0))) = (unat b0 div 4) mod 32"
    by (simp add: take_bit_eq_mod drop_bit_eq_div)
  finally show ?thesis .
qed

lemma mant_high_unat: fixes b0 :: byte shows "unat (ucast (take_bit 2 b0) :: 32 word) = unat b0 mod 4"
proof -
  have "unat (ucast (take_bit 2 b0) :: 32 word) = take_bit 32 (unat (take_bit 2 b0))"
    by (simp only: unsigned_ucast_eq) simp
  also have "unat (take_bit 2 b0) = take_bit 2 (unat b0)"
    by (simp only: unsigned_take_bit_eq)
  also have "take_bit 32 (take_bit 2 (unat b0)) = unat b0 mod 4"
    by (simp add: take_bit_eq_mod)
  finally show ?thesis .
qed

lemma ucast_byte_unat: fixes b1 :: byte shows "unat (ucast b1 :: 32 word) = unat b1"
proof -
  have "unat (ucast b1 :: 32 word) = take_bit 32 (unat b1)"
    by (simp only: unsigned_ucast_eq) simp
  also have "\<dots> = unat b1"
    using unsigned_less[of b1, where ?'a = nat] by (simp add: take_bit_eq_mod)
  finally show ?thesis .
qed


lemma half_exp_unat:
  fixes b0 :: byte
  shows "unat (drop_bit 2 ((ucast b0 :: 32 word) AND 0x7C)) = (unat b0 div 4) mod 32"
  unfolding half_exp by (rule exp_field_unat)

lemma half_mant_unat:
  fixes b0 b1 :: byte
  shows "unat (push_bit 8 ((ucast b0 :: 32 word) AND 0x03) OR ucast b1)
    = 256 * (unat b0 mod 4) + unat b1"
proof -
  have c: "unat b1 < 256" using unsigned_less[of b1, where ?'a = nat] by simp
  have d: "unat b0 mod 4 < 4" by simp
  have e: "unat (push_bit 8 (ucast (take_bit 2 b0) :: 32 word)) = 256 * (unat b0 mod 4)"
    using d by (simp add: push_bit_eq_mult unat_word_ariths mant_high_unat)
  have "unat (push_bit 8 (ucast (take_bit 2 b0) :: 32 word) + ucast b1)
      = (256 * (unat b0 mod 4) + unat b1) mod 2 ^ 32"
    by (simp only: unat_word_ariths e ucast_byte_unat) simp
  also have "\<dots> = 256 * (unat b0 mod 4) + unat b1"
    using c d by simp
  finally show ?thesis unfolding half_mant .
qed

lemma half_sign_nat:
  fixes b0 :: byte
  shows "bit b0 7 = odd (unat b0 div 2 ^ 7)"
proof -
  have "bit (unat b0) 7 = bit b0 7" by (simp add: bit_unsigned_iff)
  then show ?thesis by (simp add: bit_iff_odd)
qed

lemma payload_fields:
  fixes u0 u1 :: nat
  assumes "u1 < 256"
  shows "(256 * u0 + u1) div 2 ^ 15 = u0 div 2 ^ 7"
    and "((256 * u0 + u1) div 2 ^ 10) mod 2 ^ 5 = (u0 div 4) mod 32"
    and "(256 * u0 + u1) mod 2 ^ 10 = 256 * (u0 mod 4) + u1"
proof -
  have d: "(256 * u0 + u1) div 256 = u0" using assms by simp
  have "(256 * u0 + u1) div (256 * 2 ^ 7) = ((256 * u0 + u1) div 256) div 2 ^ 7"
    by (rule div_mult2_eq)
  then show "(256 * u0 + u1) div 2 ^ 15 = u0 div 2 ^ 7" using d by simp
  have "(256 * u0 + u1) div (256 * 4) = ((256 * u0 + u1) div 256) div 4"
    by (rule div_mult2_eq)
  then have "(256 * u0 + u1) div 2 ^ 10 = u0 div 4" using d by simp
  then show "((256 * u0 + u1) div 2 ^ 10) mod 2 ^ 5 = (u0 div 4) mod 32" by simp
  have "(256 * u0 + u1) mod (256 * 4) = 256 * (((256 * u0 + u1) div 256) mod 4) + (256 * u0 + u1) mod 256"
    by (rule mod_mult2_eq)
  then show "(256 * u0 + u1) mod 2 ^ 10 = 256 * (u0 mod 4) + u1" using d assms by simp
qed


lemma word32_eq_unat: "(x :: 32 word) = numeral k \<longleftrightarrow> unat x = unat (numeral k :: 32 word)"
  by (simp only: word_unat_eq_iff)

lemma parseHalf_unat:
  assumes "buf_at buf offset = Some b0" "buf_at buf (offset + 1) = Some b1"
  shows "parseHalf buf offset =
    (let e = (unat b0 div 4) mod 32; m = 256 * (unat b0 mod 4) + unat b1;
         sign = (if bit b0 7 then Finite (- 1) else Finite 1)
     in if e = 0 then times (times sign (Finite (pow2 (- 24)))) (Finite (of_nat m))
        else if e = 31 then times sign (if m \<noteq> 0 then NaN else PosInf)
        else times (times sign (Finite (pow2 (int e - 25)))) (Finite (of_nat (1024 + m))))"
proof -
  define E where "E = drop_bit 2 ((ucast b0 :: 32 word) AND 0x7C)"
  define M where "M = push_bit 8 ((ucast b0 :: 32 word) AND 0x03) OR ucast b1"
  have uE: "unat E = (unat b0 div 4) mod 32" unfolding E_def by (rule half_exp_unat)
  have uM: "unat M = 256 * (unat b0 mod 4) + unat b1" unfolding M_def by (rule half_mant_unat)
  have E0: "(E = 0) = ((unat b0 div 4) mod 32 = 0)"
    using uE by (metis unsigned_eq_0_iff)
  have E31: "(E = 0x1F) = ((unat b0 div 4) mod 32 = 31)"
    using uE by (simp add: word32_eq_unat)
  have M0: "(M = 0) = (256 * (unat b0 mod 4) + unat b1 = 0)"
    using uM by (metis unsigned_eq_0_iff)
  have iE: "uint E = int ((unat b0 div 4) mod 32)" by (simp only: uint_nat uE)
  have iM: "uint M = int (256 * (unat b0 mod 4) + unat b1)" by (simp only: uint_nat uM)
  have "parseHalf buf offset =
    (let sign = (if (ucast b0 :: 32 word) AND 0x80 \<noteq> 0 then Finite (- 1) else Finite 1)
     in if E = 0 then times (times sign (Finite (pow2 (- 24)))) (Finite (of_int (uint M)))
        else if E = 0x1F then times sign (if M \<noteq> 0 then NaN else PosInf)
        else times (times sign (Finite (pow2 (uint E - 25)))) (Finite (of_int (1024 + uint M))))"
    unfolding parseHalf_def assms toInt32_def E_def M_def Let_def by simp
  then show ?thesis
    unfolding Let_def half_sign E0 E31 M0 iE iM by simp
qed

text \<open>
  C8: for the 16-bit payload \<open>p\<close> stored big-endian in the two bytes at the offset, with
  the sign bit \<open>s\<close> (bit 15), the 5-bit exponent \<open>e\<close> (bits 10 to 14) and the 10-bit
  mantissa \<open>m\<close> (bits 0 to 9), \<open>_parseHalf\<close> returns \<open>sign * 2^-24 * m\<close> when \<open>e = 0\<close>,
  the signed infinity when \<open>e = 31\<close> and \<open>m = 0\<close>, NaN when \<open>e = 31\<close> and \<open>m \<noteq> 0\<close>, and
  \<open>sign * 2^(e-25) * (1024 + m)\<close> otherwise.
\<close>

theorem parseHalf_fields:
  assumes "buf_at buf offset = Some b0" "buf_at buf (offset + 1) = Some b1"
  shows "parseHalf buf offset =
    (let p = be_nat [b0, b1] in
     half_value (odd (p div 2 ^ 15)) ((p div 2 ^ 10) mod 2 ^ 5) (p mod 2 ^ 10))"
proof -
  have c: "unat b1 < 256" using unsigned_less[of b1, where ?'a = nat] by simp
  have p: "be_nat [b0, b1] = 256 * unat b0 + unat b1" by (simp add: be_nat_def)
  have pos: "0 < pow2 (- 24)" "0 < pow2 (int ((unat b0 div 4) mod 32) - 25)"
    by (rule pow2_pos)+
  show ?thesis
    unfolding Let_def p payload_fields[OF c] parseHalf_unat[OF assms] half_value_def
      half_sign_nat[symmetric]
    using times_sign[OF pos(1), of "of_nat (256 * (unat b0 mod 4) + unat b1)" "bit b0 7"]
      times_sign[OF pos(2), of "of_nat (1024 + (256 * (unat b0 mod 4) + unat b1))" "bit b0 7"]
      times_sign_special[of "bit b0 7"]
    by (simp del: of_nat_add of_nat_mult)
qed

theorem parseHalf_fields_witness:
  "parseHalf [0x3C, 0x00] 0 = Finite 1 \<and>
   parseHalf [0xC0, 0x00] 0 = Finite (- 2) \<and>
   parseHalf [0x00, 0x01] 0 = Finite (1 / 2 ^ 24) \<and>
   parseHalf [0x80, 0x00] 0 = NegZero \<and>
   parseHalf [0x7C, 0x00] 0 = PosInf \<and>
   parseHalf [0xFC, 0x00] 0 = NegInf \<and>
   parseHalf [0x7E, 0x00] 0 = NaN \<and>
   parseHalf [0x7B, 0xFF] 0 = Finite 65504"
  using parseHalf_fields[of "[0x3C, 0x00]" 0 "0x3C" "0x00"]
    parseHalf_fields[of "[0xC0, 0x00]" 0 "0xC0" "0x00"]
    parseHalf_fields[of "[0x00, 0x01]" 0 "0x00" "0x01"]
    parseHalf_fields[of "[0x80, 0x00]" 0 "0x80" "0x00"]
    parseHalf_fields[of "[0x7C, 0x00]" 0 "0x7C" "0x00"]
    parseHalf_fields[of "[0xFC, 0x00]" 0 "0xFC" "0x00"]
    parseHalf_fields[of "[0x7E, 0x00]" 0 "0x7E" "0x00"]
    parseHalf_fields[of "[0x7B, 0xFF]" 0 "0x7B" "0xFF"]
  by (simp add: buf_at_def be_nat_def half_value_def signed_def pow2_def)

subsection \<open>Running the monad\<close>

lemma bindF_total:
  "bindF (total m) f s = (case m s of (Inl e, s') \<Rightarrow> Some (Inl e, s') | (Inr x, s') \<Rightarrow> f x s')"
  by (simp add: bindF_def total_def split: prod.splits sum.splits)

lemma bindF_Some:
  "m s = Some (Inr x, s') \<Longrightarrow> bindF m f s = f x s'"
  "m s = Some (Inl e, s') \<Longrightarrow> bindF m f s = Some (Inl e, s')"
  "m s = None \<Longrightarrow> bindF m f s = None"
  by (simp_all add: bindF_def)

lemma peek_eq:
  "peek s = (if available (Num 1) s then (Inr (buf_at (buffer s) (start s)), s)
             else (Inl NeedMoreData, s))"
  by (simp add: peek_def bind_ensureAvailable ret_def)

lemma tryDecodeBreak_eq:
  "tryDecodeBreak s =
     (if available (Num 1) s then
        (if buf_at (buffer s) (start s) = Some TYPE_BREAK
         then (Inr True, set_start (start s + 1) s) else (Inr False, s))
      else (Inl NeedMoreData, s))"
  by (simp add: tryDecodeBreak_def bind_def peek_eq consume_def ret_def)

lemma tryDecodeNull_eq:
  "tryDecodeNull s =
     (if available (Num 1) s then
        (if buf_at (buffer s) (start s) = Some TYPE_NULL
         then (Inr True, set_start (start s + 1) s) else (Inr False, s))
      else (Inl NeedMoreData, s))"
  by (simp add: tryDecodeNull_def bind_def peek_eq consume_def ret_def)

subsection \<open>The simple values\<close>



subsection \<open>Integers\<close>

lemma be_nat_foldl_bound:
  "foldl (\<lambda>a b. a * 256 + unat (b :: byte)) a bs < (a + 1) * 256 ^ length bs"
proof (induction bs arbitrary: a)
  case Nil
  then show ?case by simp
next
  case (Cons b bs)
  have "unat b < 256" using unsigned_less[of b, where ?'a = nat] by simp
  then have "a * 256 + unat b + 1 \<le> (a + 1) * 256" by simp
  then have "(a * 256 + unat b + 1) * 256 ^ length bs \<le> ((a + 1) * 256) * 256 ^ length bs"
    by (rule mult_le_mono1)
  moreover have "foldl (\<lambda>a b. a * 256 + unat b) (a * 256 + unat b) bs
      < (a * 256 + unat b + 1) * 256 ^ length bs"
    by (rule Cons.IH)
  ultimately have "foldl (\<lambda>a b. a * 256 + unat b) (a * 256 + unat b) bs
      < ((a + 1) * 256) * 256 ^ length bs"
    by (rule less_le_trans[rotated])
  then show ?case by (simp add: algebra_simps)
qed

lemma be_nat_bound: "be_nat bs < 256 ^ length bs"
  using be_nat_foldl_bound[of 0 bs] by (simp add: be_nat_def)

lemma readUIntBE_bound: "readUIntBE n b off = Inr r \<Longrightarrow> r < 256 ^ n"
proof -
  assume "readUIntBE n b off = Inr r"
  then have r: "r = be_nat (take n (drop off b))" and l: "off + n \<le> length b"
    by (auto simp: readUIntBE_def split: if_splits)
  have "length (take n (drop off b)) = n" using l by simp
  then show ?thesis using be_nat_bound[of "take n (drop off b)"] r by simp
qed

lemma decodeValue_Num_range:
  assumes "decodeValue v s = (Inr (Num m), s')"
  shows "- 1 \<le> m \<and> m \<le> 2 ^ 53 - 1"
proof (cases v rule: minorType_cases)
  case inline
  have "uint (minorType v) < uint SIZE_8" using inline by (simp add: word_less_def)
  moreover have "- 1 \<le> uint (minorType v)"
    using uint_ge_0[of "minorType v"] by linarith
  ultimately show ?thesis using assms inline by (auto simp: decodeValue_inline cbor_codes)
next
  case s8
  have lt: "uint b < 256" for b :: byte
    using unsigned_less[of b, where ?'a = int] by simp
  have big: "(256::int) \<le> 2 ^ 53 - 1" by simp
  have "- 1 \<le> uint b \<and> uint b \<le> 2 ^ 53 - 1" for b :: byte
    using lt[of b] uint_ge_0[of b] big by linarith
  with assms s8 show ?thesis
    by (auto simp: decodeValue_8 split: if_splits option.splits)
next
  case s16
  with assms obtain r where r: "readUIntBE 2 (buffer s) (start s + 1) = Inr r" "m = int r"
    by (auto simp: decodeValue_16 readUInt16BE_def split: if_splits sum.splits)
  from readUIntBE_bound[OF r(1)] r(2) show ?thesis by simp
next
  case s32
  with assms obtain r where r: "readUIntBE 4 (buffer s) (start s + 1) = Inr r" "m = int r"
    by (auto simp: decodeValue_32 readUInt32BE_def split: if_splits sum.splits)
  from readUIntBE_bound[OF r(1)] r(2) show ?thesis by simp
next
  case s64
  with assms obtain f g where fg:
    "MIN_SAFE_INTEGER \<le> round_double (int f * 2 ^ 32 + int g)"
    "round_double (int f * 2 ^ 32 + int g) \<le> MAX_SAFE_INTEGER"
    "m = round_double (int f * 2 ^ 32 + int g)"
    by (auto simp: decodeValue_64 split: if_splits sum.splits)
  define x where "x = int f * 2 ^ 32 + int g"
  have x0: "0 \<le> x" by (simp add: x_def)
  from fg have "MIN_SAFE_INTEGER \<le> round_double x \<and> round_double x \<le> MAX_SAFE_INTEGER"
    by (simp only: x_def)
  then have le: "x \<le> 2 ^ 53 - 1" by (simp only: safe_iff[OF x0])
  then have "round_double x = x" using x0 by (intro round_double_small) simp
  then have "m = x" using fg(3) by (simp only: x_def)
  then show ?thesis using x0 le by simp
next
  case stream with assms show ?thesis by (simp add: decodeValue_stream)
next
  case invalid with assms show ?thesis by (simp add: decodeValue_invalid)
qed

lemma bitlen_power2: "bitlen (2 ^ n) = Suc n"
  by (induction n) (simp_all add: bitlen.simps[of "2 * _"] bitlen.simps[of 1] bitlen.simps[of 0]
      bitlen.simps[of "Suc 0"])

lemma round_double_neg_2_53: "round_double (- (2 ^ 53)) = - (2 ^ 53)"
proof -
  have b: "bitlen (2 ^ 53) - 53 = 1" by (simp only: bitlen_power2)
  have n: "nat \<bar>- (2 ^ 53) :: int\<bar> = 2 ^ 53" by simp
  show ?thesis
    unfolding round_double_def Let_def n b by simp
qed

lemma number_of_int_neg:
  assumes "- 1 \<le> m" "m \<le> 2 ^ 53 - 1"
  shows "number_of_int (- m - 1) = Finite (of_int (- m - 1))"
proof -
  have "round_double (- m - 1) = - m - 1"
  proof (cases "m = 2 ^ 53 - 1")
    case True
    then have "- m - 1 = - (2 ^ 53)" by simp
    then show ?thesis by (simp only: round_double_neg_2_53)
  next
    case False
    with assms show ?thesis by (intro round_double_small) simp
  qed
  moreover have "\<not> (2::int) ^ 1024 \<le> - m - 1" "\<not> - m - 1 \<le> - ((2::int) ^ 1024)"
    using assms by simp_all
  ultimately show ?thesis by (simp only: number_of_int_def Let_def if_False)
qed

lemma decodeInt_plain:
  assumes av: "available (Num 1) s"
    and mt: "majorType (buf_at (buffer s) (start s)) = TYPE_POSINT
           \<or> majorType (buf_at (buffer s) (start s)) = TYPE_NEGINT"
    and dv: "decodeValue (buf_at (buffer s) (start s)) s = (Inr r, s')"
  shows "decodeInt fuel s =
    Some (Inr (if majorType (buf_at (buffer s) (start s)) = TYPE_POSINT then num_value r
               else (case r of Big b \<Rightarrow> VBig (neg_sub_1 (BN b))
                     | Num n \<Rightarrow> VNumber (number_of_int (- n - 1))
                     | Undef \<Rightarrow> VNumber NaN)), s')"
  using mt
  by (auto simp: decodeInt_def bindF_total peek_eq av dv Let_def total_def ret_def cbor_codes)

lemma decodeInt_not_integer:
  assumes av: "available (Num 1) s"
    and mt: "majorType (buf_at (buffer s) (start s)) \<noteq> TYPE_POSINT"
      "majorType (buf_at (buffer s) (start s)) \<noteq> TYPE_NEGINT"
    and nt: "\<not> (majorType (buf_at (buffer s) (start s)) = TYPE_TAG
        \<and> (fst (decodeValue (buf_at (buffer s) (start s)) s) = Inr (Num TAG_POSBIGINT)
           \<or> fst (decodeValue (buf_at (buffer s) (start s)) s) = Inr (Num TAG_NEGBIGINT)))"
  shows "\<exists>e s'. decodeInt fuel s = Some (Inl e, s')"
proof (cases "majorType (buf_at (buffer s) (start s)) = TYPE_TAG")
  case False
  with mt show ?thesis
    by (simp add: decodeInt_def bindF_total peek_eq av Let_def total_def throw_def)
next
  case True
  obtain r s' where d: "decodeValue (buf_at (buffer s) (start s)) s = (r, s')"
    by (cases "decodeValue (buf_at (buffer s) (start s)) s")
  from True nt d have n: "r \<noteq> Inr (Num TAG_POSBIGINT)" "r \<noteq> Inr (Num TAG_NEGBIGINT)"
    by auto
  show ?thesis
  proof (cases r)
    case (Inl e)
    with True mt d show ?thesis
      by (simp add: decodeInt_def bindF_total peek_eq av Let_def total_def throw_def
          decodeTag_def isMajorType_def)
  next
    case (Inr x)
    with True mt d n show ?thesis
      by (simp add: decodeInt_def bindF_total peek_eq av Let_def total_def throw_def
          decodeTag_def isMajorType_def strict_eq_def)
  qed
qed

lemma available_CborDecoder:
  "available (Num (int n)) (CborDecoder buf None None) = (n \<le> length buf)"
  by (simp add: available_Num CborDecoder_def)

lemmas concrete_decoder =
  CborDecoder_def buf_at_def minorType_def majorType_def toInt32_def cbor_codes
  readUInt16BE_def readUInt32BE_def readUIntBE_def be_nat_def set_start_def

subsection \<open>Byte strings\<close>

lemma be_nat_append: "be_nat (a @ b) = be_nat a * 256 ^ length b + be_nat b"
proof -
  define F where "F = (\<lambda>a (b :: byte). a * 256 + unat b)"
  have step: "F x y = x * 256 + unat y" for x y by (simp add: F_def)
  have shift: "foldl F x ys = x * 256 ^ length ys + foldl F 0 ys" for x ys
  proof (induction ys arbitrary: x)
    case Nil then show ?case by simp
  next
    case (Cons y ys)
    have a: "foldl F x (y # ys) = F x y * 256 ^ length ys + foldl F 0 ys"
      using Cons.IH[of "F x y"] by simp
    have b: "foldl F 0 (y # ys) = F 0 y * 256 ^ length ys + foldl F 0 ys"
      using Cons.IH[of "F 0 y"] by simp
    have c: "F x y = x * 256 + unat y" "F 0 y = unat y" by (simp_all add: step)
    show ?case unfolding a b c by (simp add: algebra_simps)
  qed
  have "foldl F 0 (a @ b) = foldl F (foldl F 0 a) b" by simp
  also have "\<dots> = foldl F 0 a * 256 ^ length b + foldl F 0 b" by (rule shift)
  finally show ?thesis by (simp add: be_nat_def F_def)
qed

lemma drop_prefix:
  assumes "drop st buf = h @ t"
  shows "take (length h) (drop st buf) = h" and "drop (st + length h) buf = t"
proof -
  show "take (length h) (drop st buf) = h" using assms by simp
  have "drop (length h) (drop st buf) = t" using assms by simp
  then show "drop (st + length h) buf = t" by (simp add: add.commute)
qed

lemma drop_prefix_length:
  assumes "drop st buf = h @ t" "h \<noteq> []"
  shows "st + length h \<le> length buf"
proof -
  have "length (drop st buf) = length h + length t" using assms by simp
  then have l: "length buf - st = length h + length t" by (simp only: length_drop)
  have p: "1 \<le> length h" using assms(2) by (cases h) auto
  from l p show ?thesis by linarith
qed

lemma drop_Cons_at:
  assumes "drop st buf = x # t"
  shows "buf_at buf st = Some x" and "drop (Suc st) buf = t"
proof -
  have l: "st < length buf" using assms by (cases "st < length buf") auto
  have "buf ! st = hd (drop st buf)" using l by (simp add: hd_drop_conv_nth)
  then show "buf_at buf st = Some x" using l assms by (simp add: buf_at_def)
  have "drop (Suc 0) (drop st buf) = t" using assms by simp
  then show "drop (Suc st) buf = t" by simp
qed

lemma readUIntBE_prefix:
  assumes "drop off b = ext @ t" "length ext = n" "0 < n"
  shows "readUIntBE n b off = Inr (be_nat ext)"
proof -
  have "ext \<noteq> []" using assms by auto
  from drop_prefix_length[OF assms(1) this] drop_prefix(1)[OF assms(1)] assms(2)
  show ?thesis by (simp add: readUIntBE_def)
qed

lemma available_Decoder:
  "available (Num (int n)) (Decoder buf st lm acc sub)
     = (case lm of None \<Rightarrow> True | Some l \<Rightarrow> st + n \<le> l)"
  by (cases lm) (simp_all add: available_Num)

lemma available_from_limit:
  "(case lm of None \<Rightarrow> True | Some l \<Rightarrow> a \<le> l) \<Longrightarrow> st + k \<le> a \<Longrightarrow>
   available (Num (int k)) (Decoder buf st lm acc sub)"
  by (cases lm) (auto simp: available_Num)

lemma lm_weaken:
  "(case lm of None \<Rightarrow> True | Some l \<Rightarrow> a \<le> l) \<Longrightarrow> b \<le> a \<Longrightarrow>
   (case lm of None \<Rightarrow> True | Some l \<Rightarrow> (b :: nat) \<le> l)"
  by (cases lm) auto

lemma header_value_inline:
  "minorType (Some t) < SIZE_8 \<Longrightarrow>
   header_value t ext = (if ext = [] then Some (unat (minorType (Some t))) else None)"
  by (simp add: header_value_def Let_def)

lemma header_value_8:
  "minorType (Some t) = SIZE_8 \<Longrightarrow>
   header_value t ext = (if length ext = 1 then Some (be_nat ext) else None)"
  by (simp add: header_value_def Let_def cbor_codes)

lemma header_value_16:
  "minorType (Some t) = SIZE_16 \<Longrightarrow>
   header_value t ext = (if length ext = 2 then Some (be_nat ext) else None)"
  by (simp add: header_value_def Let_def cbor_codes)

lemma header_value_32:
  "minorType (Some t) = SIZE_32 \<Longrightarrow>
   header_value t ext = (if length ext = 4 then Some (be_nat ext) else None)"
  by (simp add: header_value_def Let_def cbor_codes)

lemma header_value_64:
  "minorType (Some t) = SIZE_64 \<Longrightarrow>
   header_value t ext =
     (if length ext = 8 \<and> be_nat ext \<le> 2 ^ 53 - 1 then Some (be_nat ext) else None)"
  by (simp add: header_value_def Let_def cbor_codes)

lemma header_value_other:
  "\<not> minorType (Some t) < SIZE_8 \<Longrightarrow> minorType (Some t) \<noteq> SIZE_8 \<Longrightarrow>
   minorType (Some t) \<noteq> SIZE_16 \<Longrightarrow> minorType (Some t) \<noteq> SIZE_32 \<Longrightarrow>
   minorType (Some t) \<noteq> SIZE_64 \<Longrightarrow> header_value t ext = None"
  by (simp add: header_value_def Let_def)

lemma decodeValue_header:
  assumes hv: "header_value t ext = Some n"
    and dr: "drop st buf = t # ext @ rest"
    and lm: "case lm of None \<Rightarrow> True | Some l \<Rightarrow> st + 1 + length ext \<le> l"
  shows "decodeValue (Some t) (Decoder buf st lm acc sub)
    = (Inr (Num (int n)), Decoder buf (st + 1 + length ext) lm acc sub)"
proof -
  have dr1: "drop (Suc st) buf = ext @ rest" using drop_Cons_at(2)[OF dr] .
  show ?thesis
  proof (cases "Some t" rule: minorType_cases)
    case inline
    from hv have e: "ext = []" "n = unat (minorType (Some t))"
      by (simp_all add: header_value_inline[OF inline] split: if_splits)
    have ni: "int n = uint (minorType (Some t))" by (simp only: e uint_nat)
    show ?thesis
      by (simp add: decodeValue_inline[OF inline] e(1) ni set_start_def)
  next
    case s8
    from hv have e: "length ext = 1" "n = be_nat ext"
      by (simp_all add: header_value_8[OF s8] split: if_splits)
    then obtain b where b: "ext = [b]" by (cases ext) auto
    have at: "buf_at buf (Suc st) = Some b" using drop_Cons_at(1)[of "Suc st" buf b rest] dr1 b by simp
    have av: "available (Num 2) (Decoder buf st lm acc sub)"
      using available_from_limit[OF lm, of st 2 buf acc sub] e by simp
    have "be_nat [b] = unat b" by (simp add: be_nat_def)
    then have ni: "int n = uint b" by (simp only: e b uint_nat)
    show ?thesis
      by (simp add: decodeValue_8[OF s8] av at b ni set_start_def)
  next
    case s16
    from hv have e: "length ext = 2" "n = be_nat ext"
      by (simp_all add: header_value_16[OF s16] split: if_splits)
    have rd: "readUInt16BE buf (Suc st) = Inr (be_nat ext)"
      unfolding readUInt16BE_def using readUIntBE_prefix[OF dr1 e(1)] by simp
    have av: "available (Num 3) (Decoder buf st lm acc sub)"
      using available_from_limit[OF lm, of st 3 buf acc sub] e by simp
    show ?thesis
      by (simp add: decodeValue_16[OF s16] av rd e set_start_def)
  next
    case s32
    from hv have e: "length ext = 4" "n = be_nat ext"
      by (simp_all add: header_value_32[OF s32] split: if_splits)
    have rd: "readUInt32BE buf (Suc st) = Inr (be_nat ext)"
      unfolding readUInt32BE_def using readUIntBE_prefix[OF dr1 e(1)] by simp
    have av: "available (Num 5) (Decoder buf st lm acc sub)"
      using available_from_limit[OF lm, of st 5 buf acc sub] e by simp
    show ?thesis
      by (simp add: decodeValue_32[OF s32] av rd e set_start_def)
  next
    case s64
    from hv have e: "length ext = 8" "n = be_nat ext" "be_nat ext \<le> 2 ^ 53 - 1"
      by (simp_all add: header_value_64[OF s64] split: if_splits)
    define hi where "hi = take 4 ext"
    define lo where "lo = drop 4 ext"
    have ext: "ext = hi @ lo" and l: "length hi = 4" "length lo = 4"
      using e(1) by (simp_all add: hi_def lo_def)
    have d1: "drop (Suc st) buf = hi @ (lo @ rest)" using dr1 ext by simp
    have d5: "drop (st + 5) buf = lo @ rest"
      using drop_prefix(2)[OF d1] l by (simp add: add.commute)
    have ne: "ext \<noteq> []" using e(1) by auto
    have len: "st + 9 \<le> length buf"
      using drop_prefix_length[OF dr1 ne] e(1) by simp
    have t1: "take 4 (drop (st + 1) buf) = hi" using drop_prefix(1)[OF d1] l by simp
    have t5: "take 4 (drop (st + 5) buf) = lo" using drop_prefix(1)[OF d5] l by simp
    have v: "int (be_nat hi) * 2 ^ 32 + int (be_nat lo) = int (be_nat ext)"
      unfolding ext be_nat_append l by simp
    have le: "int (be_nat ext) \<le> 2 ^ 53 - 1"
    proof -
      have "int (be_nat ext) \<le> int (2 ^ 53 - 1)" using e(3) by (simp only: of_nat_le_iff)
      then show ?thesis by simp
    qed
    have lm9: "case lm of None \<Rightarrow> True | Some l \<Rightarrow> st + 9 \<le> l"
      using lm e(1) by (cases lm) auto
    have p2: "start (Decoder buf st lm acc sub) + 9 \<le> length (buffer (Decoder buf st lm acc sub))"
      using len by simp
    have p3: "case limit (Decoder buf st lm acc sub) of None \<Rightarrow> True
        | Some l \<Rightarrow> start (Decoder buf st lm acc sub) + 9 \<le> l"
      using lm9 by (cases lm) simp_all
    have dv: "decodeValue (Some t) (Decoder buf st lm acc sub) =
        (Inr (if int (be_nat ext) \<le> 2 ^ 53 - 1 then Num (int (be_nat ext))
              else Big (int (be_nat ext))),
         set_start (st + 9) (Decoder buf st lm acc sub))"
      using decodeValue_64_exact[OF s64 p2 p3] unfolding Let_def
      by (simp only: decoder.sel t1 t5 v)
    have fin: "st + 1 + length ext = st + 9" using e(1) by simp
    show ?thesis
      unfolding dv fin e(2) using le by (simp add: set_start_def)
  next
    case stream
    then have "header_value t ext = None"
      by (intro header_value_other) (simp_all add: cbor_codes)
    with hv show ?thesis by simp
  next
    case invalid
    then have "header_value t ext = None" by (intro header_value_other)
    with hv show ?thesis by simp
  qed
qed

declare decodeByteStringsInternal.simps [simp del] decodeChunks.simps [simp del]

lemma copyChunk_Num:
  assumes dr: "drop st buf = c @ rest"
    and lm: "case lm of None \<Rightarrow> True | Some l \<Rightarrow> st + length c \<le> l"
  shows "copyChunk (Num (int (length c))) (Decoder buf st lm acc sub)
    = (Inr (), Decoder buf (st + length c) lm (acc @ c) sub)"
proof -
  have av: "available (Num (int (length c))) (Decoder buf st lm acc sub)"
    using available_from_limit[OF lm, of st "length c" buf acc sub] by simp
  have tk: "take (length c) (drop st buf) = c" using dr by simp
  show ?thesis
    by (simp add: copyChunk_def ensureAvailable_eq av bind_def streamWrite_def consume_def
        ret_def set_byteStreamBuffer_def set_start_def tk)
qed

lemma major_bytes_not_break:
  "majorType (Some t) = TYPE_BYTES \<Longrightarrow> t \<noteq> TYPE_BREAK"
  by (auto simp: majorType_def toInt32_def cbor_codes)

lemma chunk_step:
  assumes v: "valid_chunk (t, ext, c)"
    and dr: "drop st buf = chunk_bytes (t, ext, c) @ rest"
    and lm: "case lm of None \<Rightarrow> True | Some l \<Rightarrow> st + length (chunk_bytes (t, ext, c)) \<le> l"
  shows "decodeByteStringsInternal (Suc f) (Some t) (Decoder buf st lm acc sub)
    = Some (Inr (), Decoder buf (st + length (chunk_bytes (t, ext, c))) lm (acc @ c) sub)"
proof -
  have hv: "header_value t ext = Some (length c)" using v by (simp add: valid_chunk_def)
  have dr': "drop st buf = t # ext @ (c @ rest)" using dr by (simp add: chunk_bytes_def)
  have lm1: "case lm of None \<Rightarrow> True | Some l \<Rightarrow> st + 1 + length ext \<le> l"
    using lm by (cases lm) (simp_all add: chunk_bytes_def)
  have dv: "decodeValue (Some t) (Decoder buf st lm acc sub)
      = (Inr (Num (int (length c))), Decoder buf (st + 1 + length ext) lm acc sub)"
    using decodeValue_header[OF hv dr' lm1] .
  have "drop (st + length (t # ext)) buf = c @ rest"
    using drop_prefix(2)[of st buf "t # ext" "c @ rest"] dr' by simp
  then have dr2: "drop (st + 1 + length ext) buf = c @ rest" by (simp add: add.assoc)
  have lm2: "case lm of None \<Rightarrow> True | Some l \<Rightarrow> (st + 1 + length ext) + length c \<le> l"
    using lm by (cases lm) (simp_all add: chunk_bytes_def)
  have cc: "copyChunk (Num (int (length c))) (Decoder buf (st + 1 + length ext) lm acc sub)
      = (Inr (), Decoder buf ((st + 1 + length ext) + length c) lm (acc @ c) sub)"
    using copyChunk_Num[OF dr2 lm2] .
  have ne: "\<not> loose_eq (Num (int (length c))) (- 1)" by (simp add: loose_eq_def)
  have len: "length (chunk_bytes (t, ext, c)) = 1 + length ext + length c"
    by (simp add: chunk_bytes_def)
  show ?thesis
    unfolding decodeByteStringsInternal.simps bindF_total dv
    by (simp only: prod.case sum.case ne if_True not_True_eq_False not_False_eq_True total_def cc len)
       (simp add: add.assoc)
qed

lemma chunks_loop:
  assumes "\<forall>ch \<in> set chunks. valid_chunk ch"
    and "drop st buf = concat (map chunk_bytes chunks) @ TYPE_BREAK # rest"
    and "case lm of None \<Rightarrow> True | Some l \<Rightarrow> st + length (concat (map chunk_bytes chunks)) + 1 \<le> l"
  shows "decodeChunks (Suc (length chunks + k)) (Decoder buf st lm acc sub)
    = Some (Inr (), Decoder buf (st + length (concat (map chunk_bytes chunks)) + 1) lm
              (acc @ concat (map chunk_content chunks)) sub)"
  using assms
proof (induction chunks arbitrary: st acc)
  case Nil
  then have dr: "drop st buf = TYPE_BREAK # rest" by simp
  have at: "buf_at buf st = Some TYPE_BREAK" using drop_Cons_at(1)[OF dr] .
  have l1: "case lm of None \<Rightarrow> True | Some l \<Rightarrow> st + 1 \<le> l"
    using Nil.prems(3) by (cases lm) simp_all
  have av: "available (Num 1) (Decoder buf st lm acc sub)"
    using available_from_limit[OF l1, of st 1 buf acc sub] by simp
  show ?case
    by (simp add: decodeChunks.simps bindF_total tryDecodeBreak_eq av at total_def ret_def
        set_start_def)
next
  case (Cons ch chunks)
  obtain t ext c where ch: "ch = (t, ext, c)" by (cases ch) auto
  have v: "valid_chunk (t, ext, c)" using Cons.prems(1) ch by simp
  have vs: "\<forall>ch \<in> set chunks. valid_chunk ch" using Cons.prems(1) by simp
  define n where "n = length (chunk_bytes (t, ext, c))"
  define tail where "tail = concat (map chunk_bytes chunks) @ TYPE_BREAK # rest"
  have dr: "drop st buf = chunk_bytes (t, ext, c) @ tail"
    using Cons.prems(2) ch by (simp add: tail_def)
  have dr0: "drop st buf = t # (ext @ c @ tail)" using dr by (simp add: chunk_bytes_def)
  have at: "buf_at buf st = Some t" using drop_Cons_at(1)[OF dr0] .
  have nb: "t \<noteq> TYPE_BREAK" using v by (simp add: valid_chunk_def major_bytes_not_break)
  have tot: "length (concat (map chunk_bytes (ch # chunks)))
      = n + length (concat (map chunk_bytes chunks))"
    by (simp add: ch n_def)
  have p3: "case lm of None \<Rightarrow> True
      | Some l \<Rightarrow> st + (n + length (concat (map chunk_bytes chunks))) + 1 \<le> l"
    using Cons.prems(3) unfolding tot .
  have lmA: "case lm of None \<Rightarrow> True | Some l \<Rightarrow> st + n \<le> l"
    using p3 by (cases lm) simp_all
  have n1: "1 \<le> n" by (simp add: n_def chunk_bytes_def)
  have av: "available (Num 1) (Decoder buf st lm acc sub)"
    using available_from_limit[OF lmA, of st 1 buf acc sub] n1 by simp
  have step: "decodeByteStringsInternal (Suc (length chunks + k)) (Some t) (Decoder buf st lm acc sub)
      = Some (Inr (), Decoder buf (st + n) lm (acc @ c) sub)"
    unfolding n_def using chunk_step[OF v dr] lmA unfolding n_def by simp
  have dr2: "drop (st + n) buf = concat (map chunk_bytes chunks) @ TYPE_BREAK # rest"
    using drop_prefix(2)[OF dr] by (simp add: n_def tail_def)
  have lm2: "case lm of None \<Rightarrow> True
      | Some l \<Rightarrow> (st + n) + length (concat (map chunk_bytes chunks)) + 1 \<le> l"
    using p3 by (cases lm) simp_all
  have ih: "decodeChunks (Suc (length chunks + k)) (Decoder buf (st + n) lm (acc @ c) sub)
      = Some (Inr (), Decoder buf ((st + n) + length (concat (map chunk_bytes chunks)) + 1) lm
                ((acc @ c) @ concat (map chunk_content chunks)) sub)"
    using Cons.IH[OF vs dr2 lm2] .
  have fuel: "Suc (length (ch # chunks) + k) = Suc (Suc (length chunks + k))" by simp
  have te: "tryDecodeBreak (Decoder buf st lm acc sub) = (Inr False, Decoder buf st lm acc sub)"
    by (simp add: tryDecodeBreak_eq av at nb)
  have pe: "peek (Decoder buf st lm acc sub) = (Inr (Some t), Decoder buf st lm acc sub)"
    by (simp add: peek_eq av at)
  have bs: "bindF (decodeByteStringsInternal (Suc (length chunks + k)) (Some t))
        (\<lambda>_. decodeChunks (Suc (length chunks + k))) (Decoder buf st lm acc sub)
      = decodeChunks (Suc (length chunks + k)) (Decoder buf (st + n) lm (acc @ c) sub)"
    by (simp add: bindF_def step)
  have "decodeChunks (Suc (Suc (length chunks + k))) (Decoder buf st lm acc sub)
      = Some (Inr (), Decoder buf ((st + n) + length (concat (map chunk_bytes chunks)) + 1) lm
                ((acc @ c) @ concat (map chunk_content chunks)) sub)"
    unfolding decodeChunks.simps(2)[of "Suc (length chunks + k)"] bindF_total te
    by (simp only: prod.case sum.case if_False pe bs ih)
  moreover have "chunk_content ch = c" by (simp add: ch chunk_content_def)
  ultimately show ?case
    unfolding fuel tot by (simp add: add.assoc)
qed

lemma decodeBytes_indefinite_acc:
  assumes v: "\<forall>ch \<in> set chunks. valid_chunk ch"
    and dr: "drop st buf
      = (TYPE_BYTES + SIZE_STREAM) # concat (map chunk_bytes chunks) @ TYPE_BREAK # rest"
    and lm: "case lm of None \<Rightarrow> True
      | Some l \<Rightarrow> st + length (concat (map chunk_bytes chunks)) + 2 \<le> l"
    and fuel: "length chunks + 2 \<le> fuel"
  shows "decodeBytes fuel (Decoder buf st lm acc sub)
    = Some (Inr (acc @ concat (map chunk_content chunks)),
            Decoder buf (st + length (concat (map chunk_bytes chunks)) + 2) lm [] sub)"
proof -
  define n where "n = length (concat (map chunk_bytes chunks))"
  obtain k where k: "fuel = Suc (Suc (length chunks + k))"
    using fuel by (metis add_2_eq_Suc' le_Suc_ex add.commute add_Suc_right)
  have at: "buf_at buf st = Some (TYPE_BYTES + SIZE_STREAM)" using drop_Cons_at(1)[OF dr] .
  have dr1: "drop (Suc st) buf = concat (map chunk_bytes chunks) @ TYPE_BREAK # rest"
    using drop_Cons_at(2)[OF dr] .
  have l1: "case lm of None \<Rightarrow> True | Some l \<Rightarrow> st + 1 \<le> l"
    using lm by (cases lm) simp_all
  have l2: "case lm of None \<Rightarrow> True | Some l \<Rightarrow> Suc st + n + 1 \<le> l"
    using lm by (cases lm) (simp_all add: n_def)
  have av: "available (Num 1) (Decoder buf st lm acc sub)"
    using available_from_limit[OF l1, of st 1 buf acc sub] by simp
  have pe: "peek (Decoder buf st lm acc sub)
      = (Inr (Some (TYPE_BYTES + SIZE_STREAM)), Decoder buf st lm acc sub)"
    by (simp add: peek_eq av at)
  have mj: "isMajorType (Some (TYPE_BYTES + SIZE_STREAM)) TYPE_BYTES"
    by (simp add: isMajorType_def majorType_def toInt32_def cbor_codes)
  have mn: "minorType (Some (TYPE_BYTES + SIZE_STREAM)) = SIZE_STREAM"
    by (simp add: minorType_def toInt32_def cbor_codes)
  have dv: "decodeValue (Some (TYPE_BYTES + SIZE_STREAM)) (Decoder buf st lm acc sub)
      = (Inr (Num (- 1)), Decoder buf (Suc st) lm acc sub)"
    by (simp add: decodeValue_stream[OF mn] set_start_def)
  have lp: "decodeChunks (Suc (length chunks + k)) (Decoder buf (Suc st) lm acc sub)
      = Some (Inr (), Decoder buf (Suc st + n + 1) lm (acc @ concat (map chunk_content chunks)) sub)"
    unfolding n_def using chunks_loop[OF v dr1, of lm k acc sub] l2 unfolding n_def by simp
  have le: "loose_eq (Num (- 1)) (- 1)" by (simp add: loose_eq_def)
  have int: "decodeByteStringsInternal fuel (Some (TYPE_BYTES + SIZE_STREAM)) (Decoder buf st lm acc sub)
      = Some (Inr (), Decoder buf (Suc st + n + 1) lm (acc @ concat (map chunk_content chunks)) sub)"
    unfolding k decodeByteStringsInternal.simps bindF_total dv
    by (simp only: prod.case sum.case le not_True_eq_False if_False lp)
  have "decodeBytes fuel (Decoder buf st lm acc sub)
      = Some (streamRead (Decoder buf (Suc st + n + 1) lm (acc @ concat (map chunk_content chunks)) sub))"
    unfolding decodeBytes_def bindF_total pe
    by (simp only: prod.case sum.case mj not_True_eq_False if_False bindF_def int option.case total_def)
  then show ?thesis
    by (simp add: streamRead_def ret_def set_byteStreamBuffer_def n_def)
qed

text \<open>
  When the accumulator is empty at the call (a new decoder, or one whose last
  \<open>decodeBytes\<close> or \<open>decodeString\<close> returned), an indefinite-length byte string made of N
  definite-length chunks \<open>c_1 .. c_N\<close> and the stop marker decodes, with enough fuel, to
  the concatenation \<open>c_1 @ ... @ c_N\<close> in order (to the empty byte string for N = 0), and
  the offset ends behind the stop marker. For any other content of the accumulator the
  lemma above gives the result: that content, then the concatenation.
\<close>

theorem decodeBytes_indefinite:
  assumes "\<forall>ch \<in> set chunks. valid_chunk ch"
    and "drop (start s) (buffer s)
      = (TYPE_BYTES + SIZE_STREAM) # concat (map chunk_bytes chunks) @ TYPE_BREAK # rest"
    and "case limit s of None \<Rightarrow> True
      | Some l \<Rightarrow> start s + length (concat (map chunk_bytes chunks)) + 2 \<le> l"
    and "byteStreamBuffer s = []"
    and "length chunks + 2 \<le> fuel"
  shows "decodeBytes fuel s
    = Some (Inr (concat (map chunk_content chunks)),
            set_start (start s + length (concat (map chunk_bytes chunks)) + 2) s)"
proof (cases s)
  case (Decoder buf st lm acc sub)
  with assms(4) have acc: "acc = []" by simp
  have dr: "drop st buf
      = (TYPE_BYTES + SIZE_STREAM) # concat (map chunk_bytes chunks) @ TYPE_BREAK # rest"
    using assms(2) unfolding Decoder by simp
  have lm: "case lm of None \<Rightarrow> True
      | Some l \<Rightarrow> st + length (concat (map chunk_bytes chunks)) + 2 \<le> l"
    using assms(3) unfolding Decoder by (cases lm) simp_all
  show ?thesis
    using decodeBytes_indefinite_acc[OF assms(1) dr lm assms(5), of acc sub]
    unfolding Decoder acc by (simp add: set_start_def)
qed

theorem decodeBytes_indefinite_witness:
  "decodeBytes 2 (CborDecoder [0x5F, 0xFF] None None)
     = Some (Inr [], set_start 2 (CborDecoder [0x5F, 0xFF] None None)) \<and>
   decodeBytes 3 (CborDecoder [0x5F, 0x41, 0x61, 0xFF] None None)
     = Some (Inr [0x61], set_start 4 (CborDecoder [0x5F, 0x41, 0x61, 0xFF] None None)) \<and>
   decodeBytes 7 (CborDecoder [0x5F, 0x41, 0x01, 0x42, 0x02, 0x03, 0x40, 0x58, 0x01, 0x04,
                                0x59, 0x00, 0x01, 0x05, 0xFF] None None)
     = Some (Inr [0x01, 0x02, 0x03, 0x04, 0x05],
         set_start 15 (CborDecoder [0x5F, 0x41, 0x01, 0x42, 0x02, 0x03, 0x40, 0x58, 0x01, 0x04,
                                0x59, 0x00, 0x01, 0x05, 0xFF] None None))"
proof -
  have v: "valid_chunk (0x41, [], [x])" "valid_chunk (0x42, [], [x, y])" "valid_chunk (0x40, [], [])"
    "valid_chunk (0x58, [0x01], [x])" "valid_chunk (0x59, [0x00, 0x01], [x])" for x y
    by (simp_all add: valid_chunk_def header_value_def majorType_def minorType_def toInt32_def
        cbor_codes be_nat_def)
  have a: "decodeBytes 2 (CborDecoder [0x5F, 0xFF] None None)
     = Some (Inr [], set_start 2 (CborDecoder [0x5F, 0xFF] None None))"
    using decodeBytes_indefinite[of "[]" "CborDecoder [0x5F, 0xFF] None None" "[]" 2]
    by (simp add: CborDecoder_def cbor_codes set_start_def)
  have b: "decodeBytes 3 (CborDecoder [0x5F, 0x41, 0x61, 0xFF] None None)
     = Some (Inr [0x61], set_start 4 (CborDecoder [0x5F, 0x41, 0x61, 0xFF] None None))"
    using decodeBytes_indefinite[of "[(0x41, [], [0x61])]"
        "CborDecoder [0x5F, 0x41, 0x61, 0xFF] None None" "[]" 3] v
    by (simp add: CborDecoder_def cbor_codes chunk_bytes_def chunk_content_def set_start_def)
  have c: "decodeBytes 7 (CborDecoder [0x5F, 0x41, 0x01, 0x42, 0x02, 0x03, 0x40, 0x58, 0x01, 0x04,
                                0x59, 0x00, 0x01, 0x05, 0xFF] None None)
     = Some (Inr [0x01, 0x02, 0x03, 0x04, 0x05],
         set_start 15 (CborDecoder [0x5F, 0x41, 0x01, 0x42, 0x02, 0x03, 0x40, 0x58, 0x01, 0x04,
                                0x59, 0x00, 0x01, 0x05, 0xFF] None None))"
    using decodeBytes_indefinite[of "[(0x41, [], [0x01]), (0x42, [], [0x02, 0x03]), (0x40, [], []),
          (0x58, [0x01], [0x04]), (0x59, [0x00, 0x01], [0x05])]"
        "CborDecoder [0x5F, 0x41, 0x01, 0x42, 0x02, 0x03, 0x40, 0x58, 0x01, 0x04,
                                0x59, 0x00, 0x01, 0x05, 0xFF] None None" "[]" 7] v
    by (simp add: CborDecoder_def cbor_codes chunk_bytes_def chunk_content_def set_start_def)
  from a b c show ?thesis by simp
qed

subsection \<open>Integers on the wire\<close>

lemma unat_byte_bound: "unat (b :: byte) < 256"
  using unsigned_less[of b, where ?'a = nat] by simp

lemma encoded_magnitude_small:
  assumes "encoded_magnitude t ext = Some m" "minorType (Some t) \<noteq> SIZE_64"
  shows "m < 2 ^ 32"
proof -
  have b: "be_nat ext < 256 ^ length ext" by (rule be_nat_bound)
  have u: "unat (minorType (Some t)) < 256" by (rule unat_byte_bound)
  from assms b u show ?thesis
    by (auto simp: encoded_magnitude_def Let_def split: if_splits)
qed

lemma header_of_magnitude:
  assumes "encoded_magnitude t ext = Some m" "m \<le> 2 ^ 53 - 1"
  shows "header_value t ext = Some m"
  using assms
  by (auto simp: encoded_magnitude_def header_value_def Let_def split: if_splits)

lemma encoded_magnitude_64:
  assumes "encoded_magnitude t ext = Some m" "minorType (Some t) = SIZE_64"
  shows "length ext = 8 \<and> m = be_nat ext"
  using assms
  by (auto simp: encoded_magnitude_def Let_def cbor_codes split: if_splits)

lemma decodeValue_magnitude:
  assumes mag: "encoded_magnitude t ext = Some m"
    and dr: "drop st buf = t # ext @ rest"
    and lm: "case lm of None \<Rightarrow> True | Some l \<Rightarrow> st + 1 + length ext \<le> l"
  shows "decodeValue (Some t) (Decoder buf st lm acc sub)
    = (Inr (if m \<le> 2 ^ 53 - 1 then Num (int m) else Big (int m)),
       Decoder buf (st + 1 + length ext) lm acc sub)"
proof (cases "m \<le> 2 ^ 53 - 1")
  case True
  have "header_value t ext = Some m" using header_of_magnitude[OF mag True] .
  from decodeValue_header[OF this dr lm] True show ?thesis by simp
next
  case False
  have s64: "minorType (Some t) = SIZE_64"
  proof (rule ccontr)
    assume "minorType (Some t) \<noteq> SIZE_64"
    from encoded_magnitude_small[OF mag this] have "m < 2 ^ 32" .
    moreover have "(2::nat) ^ 32 \<le> 2 ^ 53 - 1" by simp
    ultimately show False using False by linarith
  qed
  from encoded_magnitude_64[OF mag s64] have e: "length ext = 8" "m = be_nat ext" by simp_all
  have dr1: "drop (Suc st) buf = ext @ rest" using drop_Cons_at(2)[OF dr] .
  define hi where "hi = take 4 ext"
  define lo where "lo = drop 4 ext"
  have ext: "ext = hi @ lo" and l: "length hi = 4" "length lo = 4"
    using e(1) by (simp_all add: hi_def lo_def)
  have d1: "drop (Suc st) buf = hi @ (lo @ rest)" using dr1 ext by simp
  have d5: "drop (st + 5) buf = lo @ rest"
    using drop_prefix(2)[OF d1] l by (simp add: add.commute)
  have ne: "ext \<noteq> []" using e(1) by auto
  have len: "st + 9 \<le> length buf"
    using drop_prefix_length[OF dr1 ne] e(1) by simp
  have t1: "take 4 (drop (st + 1) buf) = hi" using drop_prefix(1)[OF d1] l by simp
  have t5: "take 4 (drop (st + 5) buf) = lo" using drop_prefix(1)[OF d5] l by simp
  have v: "int (be_nat hi) * 2 ^ 32 + int (be_nat lo) = int (be_nat ext)"
    unfolding ext be_nat_append l by simp
  have gt: "\<not> int (be_nat ext) \<le> 2 ^ 53 - 1"
  proof
    assume "int (be_nat ext) \<le> 2 ^ 53 - 1"
    then have "int (be_nat ext) \<le> int (2 ^ 53 - 1)" by simp
    then have "be_nat ext \<le> 2 ^ 53 - 1" by (simp only: of_nat_le_iff)
    with False e(2) show False by simp
  qed
  have lm9: "case lm of None \<Rightarrow> True | Some l \<Rightarrow> st + 9 \<le> l"
    using lm e(1) by (cases lm) auto
  have p2: "start (Decoder buf st lm acc sub) + 9 \<le> length (buffer (Decoder buf st lm acc sub))"
    using len by simp
  have p3: "case limit (Decoder buf st lm acc sub) of None \<Rightarrow> True
      | Some l \<Rightarrow> start (Decoder buf st lm acc sub) + 9 \<le> l"
    using lm9 by (cases lm) simp_all
  have dv: "decodeValue (Some t) (Decoder buf st lm acc sub) =
      (Inr (if int (be_nat ext) \<le> 2 ^ 53 - 1 then Num (int (be_nat ext))
            else Big (int (be_nat ext))),
       set_start (st + 9) (Decoder buf st lm acc sub))"
    using decodeValue_64_exact[OF s64 p2 p3] unfolding Let_def
    by (simp only: decoder.sel t1 t5 v)
  have fin: "st + 1 + length ext = st + 9" using e(1) by simp
  show ?thesis
    unfolding dv fin e(2) using gt False e(2) by (simp add: set_start_def)
qed

text \<open>Conversely, a magnitude that \<open>_decodeValue\<close> returns as a number is the one the type
  byte and the extension bytes in the buffer encode.\<close>

lemma extension_count_simps:
  "minorType v < SIZE_8 \<Longrightarrow> extension_byte_count v = 0"
  "minorType v = SIZE_8 \<Longrightarrow> extension_byte_count v = 1"
  "minorType v = SIZE_16 \<Longrightarrow> extension_byte_count v = 2"
  "minorType v = SIZE_32 \<Longrightarrow> extension_byte_count v = 4"
  "minorType v = SIZE_64 \<Longrightarrow> extension_byte_count v = 8"
  by (auto simp: extension_byte_count_def Let_def cbor_codes)

lemma encoded_magnitude_simps:
  "minorType (Some t) < SIZE_8 \<Longrightarrow> encoded_magnitude t [] = Some (unat (minorType (Some t)))"
  "minorType (Some t) = SIZE_8 \<Longrightarrow> length ext = 1 \<Longrightarrow> encoded_magnitude t ext = Some (be_nat ext)"
  "minorType (Some t) = SIZE_16 \<Longrightarrow> length ext = 2 \<Longrightarrow> encoded_magnitude t ext = Some (be_nat ext)"
  "minorType (Some t) = SIZE_32 \<Longrightarrow> length ext = 4 \<Longrightarrow> encoded_magnitude t ext = Some (be_nat ext)"
  "minorType (Some t) = SIZE_64 \<Longrightarrow> length ext = 8 \<Longrightarrow> encoded_magnitude t ext = Some (be_nat ext)"
  by (auto simp: encoded_magnitude_def Let_def cbor_codes)

lemma decodeValue_Num_bytes:
  assumes dv: "decodeValue (Some t) s = (Inr (Num k), s')" and k: "0 \<le> k"
  shows "encoded_magnitude t (extension_bytes t s) = Some (nat k)"
proof (cases "Some t" rule: minorType_cases)
  case inline
  from dv have "k = uint (minorType (Some t))" by (simp add: decodeValue_inline[OF inline])
  then have "nat k = unat (minorType (Some t))" by simp
  then show ?thesis
    by (simp add: extension_bytes_def extension_count_simps(1)[OF inline]
        encoded_magnitude_simps(1)[OF inline])
next
  case s8
  from dv obtain b where b: "buf_at (buffer s) (start s + 1) = Some b" "k = uint b"
    by (auto simp: decodeValue_8[OF s8] split: if_splits option.splits)
  from b(1) have l: "start s + 1 < length (buffer s)" "buffer s ! (start s + 1) = b"
    by (auto simp: buf_at_def split: if_splits)
  have tk: "take 1 (drop (start s + 1) (buffer s)) = [b]"
    using l by (simp add: take_Suc_conv_app_nth hd_drop_conv_nth take_Suc)
  have "be_nat [b] = unat b" by (simp add: be_nat_def)
  moreover have "nat k = unat b" using b(2) by simp
  moreover have eb: "extension_bytes t s = [b]"
    unfolding extension_bytes_def extension_count_simps(2)[OF s8] by (rule tk)
  ultimately show ?thesis
    unfolding eb using encoded_magnitude_simps(2)[OF s8, of "[b]"] by simp
next
  case s16
  from dv obtain r where r: "readUIntBE 2 (buffer s) (start s + 1) = Inr r" "k = int r"
    by (auto simp: decodeValue_16[OF s16] readUInt16BE_def split: if_splits sum.splits)
  from r(1) have l: "start s + 1 + 2 \<le> length (buffer s)"
    and v: "r = be_nat (take 2 (drop (start s + 1) (buffer s)))"
    by (auto simp: readUIntBE_def split: if_splits)
  have len: "length (take 2 (drop (start s + 1) (buffer s))) = 2" using l by simp
  show ?thesis
    using encoded_magnitude_simps(3)[OF s16 len] r(2) v
    by (simp add: extension_bytes_def extension_count_simps(3)[OF s16])
next
  case s32
  from dv obtain r where r: "readUIntBE 4 (buffer s) (start s + 1) = Inr r" "k = int r"
    by (auto simp: decodeValue_32[OF s32] readUInt32BE_def split: if_splits sum.splits)
  from r(1) have l: "start s + 1 + 4 \<le> length (buffer s)"
    and v: "r = be_nat (take 4 (drop (start s + 1) (buffer s)))"
    by (auto simp: readUIntBE_def split: if_splits)
  have len: "length (take 4 (drop (start s + 1) (buffer s))) = 4" using l by simp
  show ?thesis
    using encoded_magnitude_simps(4)[OF s32 len] r(2) v
    by (simp add: extension_bytes_def extension_count_simps(4)[OF s32])
next
  case s64
  from dv have av: "available (Num 9) s"
    by (auto simp: decodeValue_64[OF s64] split: if_splits)
  from dv av obtain g where "readUIntBE 4 (buffer s) (start s + 5) = Inr g"
    by (auto simp: decodeValue_64[OF s64] readUInt32BE_def split: if_splits sum.splits)
  then have len: "start s + 9 \<le> length (buffer s)"
    by (auto simp: readUIntBE_def split: if_splits)
  have lm: "case limit s of None \<Rightarrow> True | Some l \<Rightarrow> start s + 9 \<le> l"
    using av available_Num[of 9 s] by simp
  define ext where "ext = take 8 (drop (start s + 1) (buffer s))"
  define hi where "hi = take 4 (drop (start s + 1) (buffer s))"
  define lo where "lo = take 4 (drop (start s + 5) (buffer s))"
  have d: "drop 4 (drop (start s + 1) (buffer s)) = drop (start s + 5) (buffer s)"
    by (simp add: add.commute)
  have "take (4 + 4) (drop (start s + 1) (buffer s))
      = take 4 (drop (start s + 1) (buffer s)) @ take 4 (drop 4 (drop (start s + 1) (buffer s)))"
    by (rule take_add)
  then have ext: "ext = hi @ lo" unfolding ext_def hi_def lo_def d by simp
  have l: "length hi = 4" "length lo = 4" "length ext = 8"
    using len by (simp_all add: hi_def lo_def ext_def)
  have v: "int (be_nat hi) * 2 ^ 32 + int (be_nat lo) = int (be_nat ext)"
    unfolding ext be_nat_append l by simp
  have "decodeValue (Some t) s =
      (Inr (if int (be_nat ext) \<le> 2 ^ 53 - 1 then Num (int (be_nat ext))
            else Big (int (be_nat ext))), set_start (start s + 9) s)"
    using decodeValue_64_exact[OF s64 len lm] unfolding Let_def
    by (simp only: hi_def[symmetric] lo_def[symmetric] v)
  with dv have "k = int (be_nat ext)" by (auto split: if_splits)
  then have "nat k = be_nat ext" by simp
  then show ?thesis
    using encoded_magnitude_simps(5)[OF s64 l(3)]
    by (simp add: extension_bytes_def extension_count_simps(5)[OF s64] ext_def)
next
  case stream
  with dv k show ?thesis by (simp add: decodeValue_stream)
next
  case invalid
  with dv show ?thesis by (simp add: decodeValue_invalid)
qed

lemma decodeInt_magnitude:
  assumes mag: "encoded_magnitude t ext = Some m"
    and dr: "drop st buf = t # ext @ rest"
    and lm: "case lm of None \<Rightarrow> True | Some l \<Rightarrow> st + 1 + length ext \<le> l"
    and mt: "majorType (Some t) = TYPE_POSINT \<or> majorType (Some t) = TYPE_NEGINT"
  shows "decodeInt fuel (Decoder buf st lm acc sub) =
    Some (Inr (if majorType (Some t) = TYPE_POSINT
               then (if m \<le> 2 ^ 53 - 1 then VNumber (Finite (of_int (int m))) else VBig (BN (int m)))
               else (if m \<le> 2 ^ 53 - 1 then VNumber (Finite (of_int (- int m - 1)))
                     else VBig (BN (- int m - 1)))),
          Decoder buf (st + 1 + length ext) lm acc sub)"
proof -
  have at: "buf_at buf st = Some t" using drop_Cons_at(1)[OF dr] .
  have l1: "case lm of None \<Rightarrow> True | Some l \<Rightarrow> st + 1 \<le> l"
    using lm by (cases lm) simp_all
  have av: "available (Num 1) (Decoder buf st lm acc sub)"
    using available_from_limit[OF l1, of st 1 buf acc sub] by simp
  have dv: "decodeValue (buf_at (buffer (Decoder buf st lm acc sub)) (start (Decoder buf st lm acc sub)))
      (Decoder buf st lm acc sub)
    = (Inr (if m \<le> 2 ^ 53 - 1 then Num (int m) else Big (int m)),
       Decoder buf (st + 1 + length ext) lm acc sub)"
    using decodeValue_magnitude[OF mag dr lm] by (simp add: at)
  have mt': "majorType (buf_at (buffer (Decoder buf st lm acc sub)) (start (Decoder buf st lm acc sub)))
        = TYPE_POSINT
      \<or> majorType (buf_at (buffer (Decoder buf st lm acc sub)) (start (Decoder buf st lm acc sub)))
        = TYPE_NEGINT"
    using mt by (simp add: at)
  have neg: "m \<le> 2 ^ 53 - 1 \<Longrightarrow> number_of_int (- int m - 1) = Finite (of_int (- int m - 1))"
  proof -
    assume "m \<le> 2 ^ 53 - 1"
    then have "int m \<le> int (2 ^ 53 - 1)" by (simp only: of_nat_le_iff)
    then have "int m \<le> 2 ^ 53 - 1" by simp
    then show ?thesis by (intro number_of_int_neg) simp_all
  qed
  show ?thesis
    unfolding decodeInt_plain[OF av mt' dv]
    using neg by (simp add: at num_value_def neg_sub_1_def)
qed

lemma decodeInt_fails:
  assumes av: "available (Num 1) s"
    and at: "buf_at (buffer s) (start s) = Some t"
    and mt: "majorType (Some t) \<noteq> TYPE_POSINT" "majorType (Some t) \<noteq> TYPE_NEGINT"
    and nt: "\<not> (majorType (Some t) = TYPE_TAG
          \<and> (encoded_magnitude t (extension_bytes t s) = Some 2
             \<or> encoded_magnitude t (extension_bytes t s) = Some 3))"
  shows "\<exists>e s'. decodeInt fuel s = Some (Inl e, s')"
proof -
  have tagv: "fst (decodeValue (Some t) s) = Inr (Num k) \<Longrightarrow> 0 \<le> k \<Longrightarrow>
      encoded_magnitude t (extension_bytes t s) = Some (nat k)" for k
  proof -
    assume a: "fst (decodeValue (Some t) s) = Inr (Num k)" and k: "0 \<le> k"
    obtain r s' where d: "decodeValue (Some t) s = (r, s')" by (cases "decodeValue (Some t) s")
    with a have "decodeValue (Some t) s = (Inr (Num k), s')" by simp
    from decodeValue_Num_bytes[OF this k] show ?thesis .
  qed
  have "\<not> (majorType (buf_at (buffer s) (start s)) = TYPE_TAG
        \<and> (fst (decodeValue (buf_at (buffer s) (start s)) s) = Inr (Num TAG_POSBIGINT)
           \<or> fst (decodeValue (buf_at (buffer s) (start s)) s) = Inr (Num TAG_NEGBIGINT)))"
    unfolding at using nt tagv[of 2] tagv[of 3] by (auto simp: cbor_codes)
  then show ?thesis
    using decodeInt_not_integer[OF av, of fuel] mt unfolding at by blast
qed

text \<open>
  C3: let the buffer hold, at the offset and inside the limit, a type byte \<open>t\<close> and the
  extension bytes \<open>ext\<close>, which encode the magnitude \<open>m\<close>. If the major type of \<open>t\<close> is
  unsigned integer, \<open>decodeInt\<close> returns \<open>m\<close>; if it is negative integer, \<open>decodeInt\<close>
  returns \<open>-m-1\<close>. The result is a number when \<open>m\<close> is at most \<open>2^53 - 1\<close> (\<open>-m-1\<close> is then
  exact in a double) and a BigNumber otherwise; the offset ends behind the extension
  bytes. If the major type of the type byte at the offset is neither of the two, and the
  bytes are not a tag of magnitude 2 or 3 (the big-integer tags), \<open>decodeInt\<close> fails. This
  holds for any fuel.
\<close>

theorem decodeInt_spec:
  "(encoded_magnitude t ext = Some m \<and> drop (start s) (buffer s) = t # ext @ rest \<and>
    (case limit s of None \<Rightarrow> True | Some l \<Rightarrow> start s + 1 + length ext \<le> l) \<longrightarrow>
      (majorType (Some t) = TYPE_POSINT \<longrightarrow>
         decodeInt fuel s =
           Some (Inr (if m \<le> 2 ^ 53 - 1 then VNumber (Finite (of_int (int m)))
                      else VBig (BN (int m))),
                 set_start (start s + 1 + length ext) s)) \<and>
      (majorType (Some t) = TYPE_NEGINT \<longrightarrow>
         decodeInt fuel s =
           Some (Inr (if m \<le> 2 ^ 53 - 1 then VNumber (Finite (of_int (- int m - 1)))
                      else VBig (BN (- int m - 1))),
                 set_start (start s + 1 + length ext) s))) \<and>
   (available (Num 1) s \<and> buf_at (buffer s) (start s) = Some t \<and>
    majorType (Some t) \<noteq> TYPE_POSINT \<and> majorType (Some t) \<noteq> TYPE_NEGINT \<and>
    \<not> (majorType (Some t) = TYPE_TAG
       \<and> (encoded_magnitude t (extension_bytes t s) = Some 2
          \<or> encoded_magnitude t (extension_bytes t s) = Some 3)) \<longrightarrow>
      (\<exists>e s'. decodeInt fuel s = Some (Inl e, s')))"
proof (intro conjI impI)
  assume a: "encoded_magnitude t ext = Some m \<and> drop (start s) (buffer s) = t # ext @ rest \<and>
    (case limit s of None \<Rightarrow> True | Some l \<Rightarrow> start s + 1 + length ext \<le> l)"
  obtain buf st lm acc sub where s: "s = Decoder buf st lm acc sub" by (cases s)
  from a have mag: "encoded_magnitude t ext = Some m"
    and dr: "drop st buf = t # ext @ rest"
    unfolding s by simp_all
  from a have lm: "case lm of None \<Rightarrow> True | Some l \<Rightarrow> st + 1 + length ext \<le> l"
    unfolding s by (cases lm) simp_all
  { assume p: "majorType (Some t) = TYPE_POSINT"
    show "decodeInt fuel s =
           Some (Inr (if m \<le> 2 ^ 53 - 1 then VNumber (Finite (of_int (int m)))
                      else VBig (BN (int m))),
                 set_start (start s + 1 + length ext) s)"
      using decodeInt_magnitude[OF mag dr lm, of fuel acc sub] p
      unfolding s by (simp add: set_start_def) }
  { assume p: "majorType (Some t) = TYPE_NEGINT"
    show "decodeInt fuel s =
           Some (Inr (if m \<le> 2 ^ 53 - 1 then VNumber (Finite (of_int (- int m - 1)))
                      else VBig (BN (- int m - 1))),
                 set_start (start s + 1 + length ext) s)"
      using decodeInt_magnitude[OF mag dr lm, of fuel acc sub] p
      unfolding s by (simp add: set_start_def cbor_codes) }
next
  assume "available (Num 1) s \<and> buf_at (buffer s) (start s) = Some t \<and>
    majorType (Some t) \<noteq> TYPE_POSINT \<and> majorType (Some t) \<noteq> TYPE_NEGINT \<and>
    \<not> (majorType (Some t) = TYPE_TAG
       \<and> (encoded_magnitude t (extension_bytes t s) = Some 2
          \<or> encoded_magnitude t (extension_bytes t s) = Some 3))"
  then show "\<exists>e s'. decodeInt fuel s = Some (Inl e, s')"
    using decodeInt_fails[of s t fuel] by blast
qed


lemmas concrete_header =
  encoded_magnitude_def extension_bytes_def extension_byte_count_def available_def js_less_def

theorem decodeInt_spec_witness:
  "decodeInt 0 (CborDecoder [0x18, 0x64] None None)
     = Some (Inr (VNumber (Finite 100)), set_start 2 (CborDecoder [0x18, 0x64] None None)) \<and>
   decodeInt 0 (CborDecoder [0x38, 0x63] None None)
     = Some (Inr (VNumber (Finite (- 100))), set_start 2 (CborDecoder [0x38, 0x63] None None)) \<and>
   decodeInt 0 (CborDecoder [0x1B, 0x00, 0x1F, 0xFF, 0xFF, 0xFF, 0xFF, 0xFF, 0xFF] None None)
     = Some (Inr (VNumber (Finite 9007199254740991)),
         set_start 9 (CborDecoder [0x1B, 0x00, 0x1F, 0xFF, 0xFF, 0xFF, 0xFF, 0xFF, 0xFF] None None)) \<and>
   decodeInt 0 (CborDecoder [0x1B, 0x00, 0x20, 0x00, 0x00, 0x00, 0x00, 0x00, 0x00] None None)
     = Some (Inr (VBig (BN 9007199254740992)),
         set_start 9 (CborDecoder [0x1B, 0x00, 0x20, 0x00, 0x00, 0x00, 0x00, 0x00, 0x00] None None)) \<and>
   decodeInt 0 (CborDecoder [0x3B, 0x00, 0x1F, 0xFF, 0xFF, 0xFF, 0xFF, 0xFF, 0xFF] None None)
     = Some (Inr (VNumber (Finite (- 9007199254740992))),
         set_start 9 (CborDecoder [0x3B, 0x00, 0x1F, 0xFF, 0xFF, 0xFF, 0xFF, 0xFF, 0xFF] None None)) \<and>
   decodeInt 0 (CborDecoder [0x3B, 0x00, 0x20, 0x00, 0x00, 0x00, 0x00, 0x00, 0x00] None None)
     = Some (Inr (VBig (BN (- 9007199254740993))),
         set_start 9 (CborDecoder [0x3B, 0x00, 0x20, 0x00, 0x00, 0x00, 0x00, 0x00, 0x00] None None)) \<and>
   (\<exists>e s'. decodeInt 0 (CborDecoder [0x61, 0x61] None None) = Some (Inl e, s')) \<and>
   (\<exists>e s'. decodeInt 0 (CborDecoder [0xC4, 0x82, 0x02, 0x01] None None) = Some (Inl e, s')) \<and>
   (\<exists>e s'. decodeInt 0 (CborDecoder [0xD8] None None) = Some (Inl e, s'))"
proof -
  have r1: "decodeInt 0 (CborDecoder [0x18, 0x64] None None)
     = Some (Inr (VNumber (Finite 100)), set_start 2 (CborDecoder [0x18, 0x64] None None))"
    using decodeInt_spec[of "0x18" "[0x64]" 100 "CborDecoder [0x18, 0x64] None None" "[]" 0]
    by (simp add: concrete_decoder concrete_header)
  have r2: "decodeInt 0 (CborDecoder [0x38, 0x63] None None)
     = Some (Inr (VNumber (Finite (- 100))), set_start 2 (CborDecoder [0x38, 0x63] None None))"
    using decodeInt_spec[of "0x38" "[0x63]" 99 "CborDecoder [0x38, 0x63] None None" "[]" 0]
    by (simp add: concrete_decoder concrete_header)
  have r3: "decodeInt 0 (CborDecoder [0x1B, 0x00, 0x1F, 0xFF, 0xFF, 0xFF, 0xFF, 0xFF, 0xFF] None None)
     = Some (Inr (VNumber (Finite 9007199254740991)),
         set_start 9 (CborDecoder [0x1B, 0x00, 0x1F, 0xFF, 0xFF, 0xFF, 0xFF, 0xFF, 0xFF] None None))"
    using decodeInt_spec[of "0x1B" "[0x00, 0x1F, 0xFF, 0xFF, 0xFF, 0xFF, 0xFF, 0xFF]" 9007199254740991
        "CborDecoder [0x1B, 0x00, 0x1F, 0xFF, 0xFF, 0xFF, 0xFF, 0xFF, 0xFF] None None" "[]" 0]
    by (simp add: concrete_decoder concrete_header)
  have r4: "decodeInt 0 (CborDecoder [0x1B, 0x00, 0x20, 0x00, 0x00, 0x00, 0x00, 0x00, 0x00] None None)
     = Some (Inr (VBig (BN 9007199254740992)),
         set_start 9 (CborDecoder [0x1B, 0x00, 0x20, 0x00, 0x00, 0x00, 0x00, 0x00, 0x00] None None))"
    using decodeInt_spec[of "0x1B" "[0x00, 0x20, 0x00, 0x00, 0x00, 0x00, 0x00, 0x00]" 9007199254740992
        "CborDecoder [0x1B, 0x00, 0x20, 0x00, 0x00, 0x00, 0x00, 0x00, 0x00] None None" "[]" 0]
    by (simp add: concrete_decoder concrete_header)
  have r5: "decodeInt 0 (CborDecoder [0x3B, 0x00, 0x1F, 0xFF, 0xFF, 0xFF, 0xFF, 0xFF, 0xFF] None None)
     = Some (Inr (VNumber (Finite (- 9007199254740992))),
         set_start 9 (CborDecoder [0x3B, 0x00, 0x1F, 0xFF, 0xFF, 0xFF, 0xFF, 0xFF, 0xFF] None None))"
    using decodeInt_spec[of "0x3B" "[0x00, 0x1F, 0xFF, 0xFF, 0xFF, 0xFF, 0xFF, 0xFF]" 9007199254740991
        "CborDecoder [0x3B, 0x00, 0x1F, 0xFF, 0xFF, 0xFF, 0xFF, 0xFF, 0xFF] None None" "[]" 0]
    by (simp add: concrete_decoder concrete_header)
  have r6: "decodeInt 0 (CborDecoder [0x3B, 0x00, 0x20, 0x00, 0x00, 0x00, 0x00, 0x00, 0x00] None None)
     = Some (Inr (VBig (BN (- 9007199254740993))),
         set_start 9 (CborDecoder [0x3B, 0x00, 0x20, 0x00, 0x00, 0x00, 0x00, 0x00, 0x00] None None))"
    using decodeInt_spec[of "0x3B" "[0x00, 0x20, 0x00, 0x00, 0x00, 0x00, 0x00, 0x00]" 9007199254740992
        "CborDecoder [0x3B, 0x00, 0x20, 0x00, 0x00, 0x00, 0x00, 0x00, 0x00] None None" "[]" 0]
    by (simp add: concrete_decoder concrete_header)
  have r7: "\<exists>e s'. decodeInt 0 (CborDecoder [0x61, 0x61] None None) = Some (Inl e, s')"
    using decodeInt_spec[of "0x61" "[]" 0 "CborDecoder [0x61, 0x61] None None" "[]" 0]
    by (simp add: concrete_decoder concrete_header)
  have r8: "\<exists>e s'. decodeInt 0 (CborDecoder [0xC4, 0x82, 0x02, 0x01] None None) = Some (Inl e, s')"
    using decodeInt_spec[of "0xC4" "[]" 0 "CborDecoder [0xC4, 0x82, 0x02, 0x01] None None" "[]" 0]
    by (simp add: concrete_decoder concrete_header)
  have r9: "\<exists>e s'. decodeInt 0 (CborDecoder [0xD8] None None) = Some (Inl e, s')"
    using decodeInt_spec[of "0xD8" "[]" 0 "CborDecoder [0xD8] None None" "[]" 0]
    by (simp add: concrete_decoder concrete_header)
  from r1 r2 r3 r4 r5 r6 r7 r8 r9 show ?thesis by simp
qed

subsection \<open>The value undefined\<close>


subsection \<open>The accumulator after an incomplete read\<close>

text \<open>
  C7, at a decoder whose last read ended with NeedMoreData inside an indefinite-length
  byte string. The buffer \<open>5F 41 61\<close> lacks the stop marker: \<open>decodeBytes\<close> raises
  NeedMoreData after it has copied the chunk \<open>61\<close> into the accumulator, and nothing
  empties the accumulator. The caller appends the missing byte and decodes again from
  the original offset: \<open>decodeBytes\<close> on \<open>5F 41 61 FF\<close>, one chunk \<open>61\<close> and the stop
  marker, then returns the two bytes \<open>61 61\<close> instead of the chunk \<open>61\<close>.
\<close>

theorem decodeBytes_stale_accumulator:
  "decodeBytes 3 (CborDecoder [0x5F, 0x41, 0x61] None None)
     = Some (Inl NeedMoreData, Decoder [0x5F, 0x41, 0x61] 3 (Some 3) [0x61] None) \<and>
   decodeBytes 3 (Decoder [0x5F, 0x41, 0x61, 0xFF] 0 (Some 4) [0x61] None)
     = Some (Inr [0x61, 0x61], Decoder [0x5F, 0x41, 0x61, 0xFF] 4 (Some 4) [] None)"
  by code_simp

subsection \<open>Big integers\<close>

lemma decodeBigInt_bytes:
  assumes tag: "tag = Num TAG_POSBIGINT \<or> tag = Num TAG_NEGBIGINT"
    and av: "available (Num 1) s"
    and mj: "isMajorType (buf_at (buffer s) (start s)) TYPE_BYTES"
    and db: "decodeBytes fuel s = Some (Inr b, s')"
  shows "decodeBigInt fuel tag s =
    (if b = [] then Some (Inl BigNumberError, s')
     else Some (Inr (VBig (if tag = Num TAG_POSBIGINT then BN (int (be_nat b))
                           else BN (- int (be_nat b) - 1))), s'))"
proof -
  have pe: "peek s = (Inr (buf_at (buffer s) (start s)), s)" by (simp add: peek_eq av)
  have b1: "bindF (decodeBytes fuel) g s = g b s'" for g :: "byte list \<Rightarrow> decoder \<Rightarrow> jsvalue res option"
    by (simp add: bindF_def db)
  show ?thesis
    using tag
    by (auto simp: decodeBigInt_def loose_eq_def TAG_POSBIGINT_def TAG_NEGBIGINT_def bindF_total pe mj b1 lift_def
        bignumber_of_hex_def total_def ret_def neg_sub_1_def)
qed

lemma decodeBigInt_not_bytes:
  assumes tag: "tag = Num TAG_POSBIGINT \<or> tag = Num TAG_NEGBIGINT"
    and av: "available (Num 1) s"
    and mj: "\<not> isMajorType (buf_at (buffer s) (start s)) TYPE_BYTES"
  shows "decodeBigInt fuel tag s = Some (Inl BigIntNotBinary, s)"
proof -
  have pe: "peek s = (Inr (buf_at (buffer s) (start s)), s)" by (simp add: peek_eq av)
  show ?thesis
    using tag
    by (auto simp: decodeBigInt_def loose_eq_def TAG_POSBIGINT_def TAG_NEGBIGINT_def bindF_total pe mj total_def throw_def)
qed

text \<open>
  C4, at the empty byte string. The positive big-integer tag followed by the byte string
  of length 0 (the bytes \<open>C2 40\<close>) does not decode to 0, the integer whose big-endian
  magnitude is the empty string, nor the negative tag (\<open>C3 40\<close>) to -1: the hex string
  handed to bignumber.js is empty and the library raises its error. The
  indefinite-length empty byte string (\<open>C2 5F FF\<close>) fails the same way. The byte string
  \<open>01 00\<close> decodes to 256 under the positive tag and to -257 under the negative tag, and
  a text string under the tag is refused.
\<close>

theorem decodeBigInt_empty_bytes:
  "decodeObject None 2 (CborDecoder [0xC2, 0x40] None None)
     = Some (Inl BigNumberError, Decoder [0xC2, 0x40] 2 (Some 2) [] None) \<and>
   decodeObject None 2 (CborDecoder [0xC3, 0x40] None None)
     = Some (Inl BigNumberError, Decoder [0xC3, 0x40] 2 (Some 2) [] None) \<and>
   decodeObject None 3 (CborDecoder [0xC2, 0x5F, 0xFF] None None)
     = Some (Inl BigNumberError, Decoder [0xC2, 0x5F, 0xFF] 3 (Some 3) [] None) \<and>
   decodeObject None 2 (CborDecoder [0xC2, 0x42, 0x01, 0x00] None None)
     = Some (Inr (VBig (BN 256)), Decoder [0xC2, 0x42, 0x01, 0x00] 4 (Some 4) [] None) \<and>
   decodeObject None 2 (CborDecoder [0xC3, 0x42, 0x01, 0x00] None None)
     = Some (Inr (VBig (BN (- 257))), Decoder [0xC3, 0x42, 0x01, 0x00] 4 (Some 4) [] None) \<and>
   decodeObject None 2 (CborDecoder [0xC2, 0x62, 0x01, 0x00] None None)
     = Some (Inl BigIntNotBinary, Decoder [0xC2, 0x62, 0x01, 0x00] 1 (Some 4) [] None)"
  by code_simp

subsection \<open>Decimals\<close>

lemma major_tag_not_simple:
  assumes "majorType (Some t) = TYPE_TAG"
  shows "t \<noteq> TYPE_NULL" "t \<noteq> TYPE_UNDEFINED" "t \<noteq> TYPE_TRUE" "t \<noteq> TYPE_FALSE"
    "t \<noteq> TYPE_FLOAT_16" "t \<noteq> TYPE_FLOAT_32" "t \<noteq> TYPE_FLOAT_64" "t \<noteq> TYPE_BREAK"
  using assms by (auto simp: majorType_def toInt32_def cbor_codes)

lemma decodeObject_tagged:
  assumes av: "available (Num 1) s"
    and at: "buf_at (buffer s) (start s) = Some t"
    and mt: "majorType (Some t) = TYPE_TAG"
  shows "decodeObject h (Suc fuel) s = decodeTaggedType h fuel (decodeObject h fuel) (Some t) s"
proof -
  have m: "TYPE_TAG \<noteq> TYPE_POSINT" "TYPE_TAG \<noteq> TYPE_NEGINT"
    "TYPE_TAG \<noteq> TYPE_BYTES" "TYPE_TAG \<noteq> TYPE_UTF"
    "TYPE_TAG \<noteq> TYPE_ARRAY" "TYPE_TAG \<noteq> TYPE_MAP"
    by (simp_all add: cbor_codes)
  show ?thesis
    using major_tag_not_simple[OF mt]
    by (simp add: bindF_total tryDecodeNull_eq peek_eq av at m mt Let_def)
qed

lemma decodeTaggedType_decimal:
  assumes mt: "majorType (Some t) = TYPE_TAG"
    and dv: "decodeValue (Some t) s = (Inr (Num TAG_DECIMAL), s1)"
  shows "decodeTaggedType h fuel f (Some t) s = decodeDecimal fuel (Num TAG_DECIMAL) s1"
  by (simp add: decodeTaggedType_def decodeTag_def isMajorType_def mt bindF_total dv strict_eq_def
      TAG_DECIMAL_def TAG_POSBIGINT_def TAG_NEGBIGINT_def)

lemma decodeDecimal_items:
  assumes al: "decodeArrayLength s = (Inr (Num 2), s1)"
    and d1: "decodeInt fuel s1 = Some (Inr scale, s2)"
    and d2: "decodeInt fuel s2 = Some (Inr x, s3)"
  shows "decodeDecimal fuel (Num TAG_DECIMAL) s =
    (case new_BigNumber x of
       Inl e \<Rightarrow> Some (Inl e, s3)
     | Inr bi \<Rightarrow> Some (Inr (VDecimal bi (unary_minus scale)), s3))"
proof -
  have b1: "bindF (decodeInt fuel) g s1 = g scale s2"
    for g :: "jsvalue \<Rightarrow> decoder \<Rightarrow> jsvalue res option"
    by (simp add: bindF_def d1)
  have b2: "bindF (decodeInt fuel) g s2 = g x s3"
    for g :: "jsvalue \<Rightarrow> decoder \<Rightarrow> jsvalue res option"
    by (simp add: bindF_def d2)
  show ?thesis
    by (simp add: decodeDecimal_def loose_eq_def bindF_total al b1 b2 lift_def total_def ret_def
        split: sum.splits)
qed

lemma decodeDecimal_size:
  assumes al: "decodeArrayLength s = (Inr (Num n), s1)" and n: "n \<noteq> 2"
  shows "decodeDecimal fuel (Num TAG_DECIMAL) s = Some (Inl DecimalArraySize, s1)"
  by (simp add: decodeDecimal_def loose_eq_def bindF_total al n total_def throw_def)

lemma new_BigNumber_min:
  "new_BigNumber (VNumber (Finite (of_int (- int 9007199254740991 - 1)))) = Inl BigNumberError"
proof -
  have e: "(of_int (- int 9007199254740991 - 1) :: rat) = - 9007199254740992" by simp
  show ?thesis unfolding e by (simp add: new_BigNumber_def)
qed

text \<open>
  C5, at the unscaled integer \<open>-2^53\<close>. The decimal-fraction tag over the array
  \<open>[2, -9007199254740992]\<close> (the bytes \<open>C4 82 02 3B 00 1F FF FF FF FF FF FF\<close>) does not
  decode to the decimal with the unscaled integer \<open>-2^53\<close> and the exponent -2:
  \<open>decodeInt\<close> returns \<open>-2^53\<close> as a number, and \<open>new BigNumber\<close> refuses a number above
  \<open>2^53 - 1\<close> in magnitude. The payload \<open>[2, 12345]\<close> decodes to the unscaled integer
  12345 and the exponent -2, and an array of declared length 3 is refused.
\<close>

theorem decodeDecimal_min_safe:
  "decodeObject None 2
      (CborDecoder [0xC4, 0x82, 0x02, 0x3B, 0x00, 0x1F, 0xFF, 0xFF, 0xFF, 0xFF, 0xFF, 0xFF] None None)
     = Some (Inl BigNumberError,
         Decoder [0xC4, 0x82, 0x02, 0x3B, 0x00, 0x1F, 0xFF, 0xFF, 0xFF, 0xFF, 0xFF, 0xFF] 12 (Some 12) [] None) \<and>
   decodeObject None 2 (CborDecoder [0xC4, 0x82, 0x02, 0x19, 0x30, 0x39] None None)
     = Some (Inr (VDecimal (BN 12345) (Finite (- 2))),
         Decoder [0xC4, 0x82, 0x02, 0x19, 0x30, 0x39] 6 (Some 6) [] None) \<and>
   decodeObject None 2 (CborDecoder [0xC4, 0x83, 0x02, 0x01, 0x01] None None)
     = Some (Inl DecimalArraySize, Decoder [0xC4, 0x83, 0x02, 0x01, 0x01] 2 (Some 5) [] None)"
proof -
  define buf :: "byte list"
    where "buf = [0xC4, 0x82, 0x02, 0x3B, 0x00, 0x1F, 0xFF, 0xFF, 0xFF, 0xFF, 0xFF, 0xFF]"
  have s0: "CborDecoder buf None None = Decoder buf 0 (Some 12) [] None"
    by (simp add: CborDecoder_def buf_def)
  have mt: "majorType (Some 0xC4) = TYPE_TAG" by (simp add: majorType_def toInt32_def cbor_codes)
  have o: "decodeObject None (Suc 1) (Decoder buf 0 (Some 12) [] None)
      = decodeTaggedType None 1 (decodeObject None 1) (Some 0xC4) (Decoder buf 0 (Some 12) [] None)"
    by (rule decodeObject_tagged) (simp_all add: available_def js_less_def buf_at_def buf_def mt)
  have dv: "decodeValue (Some 0xC4) (Decoder buf 0 (Some 12) [] None)
      = (Inr (Num TAG_DECIMAL), Decoder buf 1 (Some 12) [] None)"
    by (simp add: decodeValue_def minorType_def toInt32_def cbor_codes Let_def finish_eq set_start_def)
  have al: "decodeArrayLength (Decoder buf 1 (Some 12) [] None)
      = (Inr (Num 2), Decoder buf 2 (Some 12) [] None)"
    by (simp add: decodeArrayLength_def bind_def peek_eq available_def js_less_def buf_at_def buf_def
        majorType_def toInt32_def cbor_codes decodeValue_def minorType_def Let_def finish_eq
        set_start_def)
  have d1: "decodeInt 1 (Decoder buf 2 (Some 12) [] None)
      = Some (Inr (VNumber (Finite (of_int (int 2)))), Decoder buf (2 + 1 + length ([] :: byte list)) (Some 12) [] None)"
    using decodeInt_magnitude[of "0x02" "[]" 2 2 buf
        "[0x3B, 0x00, 0x1F, 0xFF, 0xFF, 0xFF, 0xFF, 0xFF, 0xFF]" "Some 12" 1 "[]" None]
    by (simp add: encoded_magnitude_def minorType_def majorType_def toInt32_def cbor_codes buf_def)
  have d2: "decodeInt 1 (Decoder buf 3 (Some 12) [] None)
      = Some (Inr (VNumber (Finite (of_int (- int 9007199254740991 - 1)))),
              Decoder buf (3 + 1 + length [0x00, 0x1F, 0xFF, 0xFF, 0xFF, 0xFF, 0xFF, 0xFF :: byte]) (Some 12) [] None)"
    using decodeInt_magnitude[of "0x3B" "[0x00, 0x1F, 0xFF, 0xFF, 0xFF, 0xFF, 0xFF, 0xFF]"
        9007199254740991 3 buf "[]" "Some 12" 1 "[]" None]
    by (simp add: encoded_magnitude_def minorType_def majorType_def toInt32_def cbor_codes buf_def
        be_nat_def)
  have d1': "decodeInt 1 (Decoder buf 2 (Some 12) [] None)
      = Some (Inr (VNumber (Finite (of_int (int 2)))), Decoder buf 3 (Some 12) [] None)"
    using d1 by simp
  have dd: "decodeDecimal 1 (Num TAG_DECIMAL) (Decoder buf 1 (Some 12) [] None)
      = Some (Inl BigNumberError, Decoder buf 12 (Some 12) [] None)"
    unfolding decodeDecimal_items[OF al d1' d2] new_BigNumber_min by simp
  have a: "decodeObject None 2 (CborDecoder buf None None)
      = Some (Inl BigNumberError, Decoder buf 12 (Some 12) [] None)"
    unfolding s0 using o decodeTaggedType_decimal[OF mt dv, of None 1 "decodeObject None 1"] dd
    by (simp add: numeral_2_eq_2)
  have b: "decodeObject None 2 (CborDecoder [0xC4, 0x82, 0x02, 0x19, 0x30, 0x39] None None)
     = Some (Inr (VDecimal (BN 12345) (Finite (- 2))),
         Decoder [0xC4, 0x82, 0x02, 0x19, 0x30, 0x39] 6 (Some 6) [] None)"
    by code_simp
  have c: "decodeObject None 2 (CborDecoder [0xC4, 0x83, 0x02, 0x01, 0x01] None None)
     = Some (Inl DecimalArraySize, Decoder [0xC4, 0x83, 0x02, 0x01, 0x01] 2 (Some 5) [] None)"
    by code_simp
  from a b c show ?thesis unfolding buf_def by simp
qed

subsection \<open>A decoder without limit\<close>

lemma limit_set [simp]:
  "limit (set_start n s) = limit s"
  "limit (set_byteStreamBuffer a s) = limit s"
  "limit (set_subDecoder d s) = limit s"
  by (simp_all add: set_start_def set_byteStreamBuffer_def set_subDecoder_def)




lemma ni_total:
  "fst (m s) \<noteq> Inl NeedMoreData \<Longrightarrow> limit (snd (m s)) = None \<Longrightarrow> never_incomplete (total m s)"
  by (cases "m s") (simp add: never_incomplete_def total_def)

lemma ni_totalD:
  "never_incomplete (total m s) \<Longrightarrow> fst (m s) \<noteq> Inl NeedMoreData \<and> limit (snd (m s)) = None"
  by (cases "m s") (simp add: never_incomplete_def total_def)












































subsection \<open>Maps\<close>

declare processLoop.simps [simp del]























end
